theory Spec2Isabelle
  imports Complex_Main "HOL-Library.Multiset"
begin

section \<open>Python values used by batchmail.py\<close>

text \<open>
  Exceptions are values.  \<open>Exception msg\<close> is the \<^verbatim>\<open>raise Exception(...)\<close> of
  \<^verbatim>\<open>meta_data2groups\<close>; the others are raised by the interpreter and the standard library.
\<close>

datatype error =
    Exception string | IndexError | KeyError string | TypeError | OverflowError | ValueError

subsection \<open>Decimal rendering of integers: \<^verbatim>\<open>%d\<close> and \<^verbatim>\<open>str\<close>\<close>

definition digit_char :: "nat \<Rightarrow> char" where
  "digit_char d = ''0123456789'' ! (d mod 10)"

fun str_nat :: "nat \<Rightarrow> string" where
  "str_nat n = (if n < 10 then [digit_char n] else str_nat (n div 10) @ [digit_char (n mod 10)])"

declare str_nat.simps [simp del]

definition str_int :: "int \<Rightarrow> string" where
  "str_int i = (if i < 0 then CHR ''-'' # str_nat (nat (- i)) else str_nat (nat i))"

section \<open>Metadata records\<close>

text \<open>
  The fields of the dictionary built by \<^verbatim>\<open>get_meta_data\<close> that the grouping and the
  subject lines read: \<^verbatim>\<open>x['file']['name']\<close>, \<^verbatim>\<open>x['file']['path']\<close> and
  \<^verbatim>\<open>x['file']['size']\<close>.  The size is a Python integer.
\<close>

record meta =
  file_name :: string
  file_path :: string
  file_size :: int

section \<open>Grouping: \<^verbatim>\<open>meta_data2groups\<close>\<close>

text \<open>
  The message of the exception raised for an oversized file:
  \<^verbatim>\<open>'file "%s", size %d, exceed max_size %d\n' % (name, size, max_size)\<close>.
\<close>

definition exceed_message :: "meta \<Rightarrow> int \<Rightarrow> string" where
  "exceed_message x max_size =
     ''file '' @ [CHR 0x22] @ file_name x @ [CHR 0x22] @ '', size '' @ str_int (file_size x)
       @ '', exceed max_size '' @ str_int max_size @ [CHR 0x0A]"

text \<open>
  The \<^verbatim>\<open>for x in meta_data\<close> loop, with the two local variables \<^verbatim>\<open>groups\<close> and
  \<^verbatim>\<open>total_size\<close> passed along.  \<^verbatim>\<open>groups[-1].append(x)\<close> raises IndexError on an empty
  list of groups.
\<close>

fun groups_loop :: "int \<Rightarrow> meta list \<Rightarrow> meta list list \<Rightarrow> int \<Rightarrow> error + meta list list" where
  "groups_loop max_size [] groups total_size = Inr groups"
| "groups_loop max_size (x # xs) groups total_size =
     (if file_size x > max_size then Inl (Exception (exceed_message x max_size))
      else if file_size x + total_size < max_size then
        (if groups = [] then Inl IndexError
         else groups_loop max_size xs (butlast groups @ [last groups @ [x]])
                (total_size + file_size x))
      else groups_loop max_size xs (groups @ [[x]]) (file_size x))"

definition meta_data2groups :: "meta list \<Rightarrow> int \<Rightarrow> error + meta list list" where
  "meta_data2groups meta_data max_size = groups_loop max_size meta_data [[]] 0"

text \<open>\<^verbatim>\<open>sum(x['file']['size'] for x in grp)\<close>\<close>

definition group_size :: "meta list \<Rightarrow> int" where
  "group_size grp = sum_list (map file_size grp)"

section \<open>Human readable sizes: \<^verbatim>\<open>sizeof_fmt\<close>\<close>

text \<open>
  \<^verbatim>\<open>num\<close> starts as an integer and is a float after the first \<^verbatim>\<open>num /= 1024.0\<close>.  A finite
  float is modelled by the rational it denotes.
\<close>

datatype number = IntNum int | FloatNum rat

text \<open>
  The conversion of an integer to a 64-bit float: the integer is rounded to 53
  significant bits, ties to the even significand, and the conversion raises
  OverflowError when the rounded value does not fit (from \<open>2^1024\<close> on).
\<close>

fun bitlen :: "int \<Rightarrow> nat" where
  "bitlen n = (if n \<le> 0 then 0 else Suc (bitlen (n div 2)))"

declare bitlen.simps [simp del]

definition round_53 :: "int \<Rightarrow> int" where
  "round_53 a =
     (let s = bitlen a - 53; q = a div 2 ^ s; r = a mod 2 ^ s; half = 2 ^ (s - 1);
          q' = (if half < r \<or> (r = half \<and> odd q) then q + 1 else q)
      in q' * 2 ^ s)"

definition float_of_int :: "int \<Rightarrow> error + rat" where
  "float_of_int n =
     (let a = \<bar>n\<bar>
      in if bitlen a \<le> 53 then Inr (of_int n)
         else
           (let v = round_53 a
            in if 2 ^ 1024 \<le> v then Inl OverflowError
               else Inr (of_int (if n < 0 then - v else v))))"

definition to_float :: "number \<Rightarrow> error + rat" where
  "to_float num = (case num of IntNum n \<Rightarrow> float_of_int n | FloatNum x \<Rightarrow> Inr x)"

text \<open>\<^verbatim>\<open>abs(num) < 1024.0\<close> compares the exact values, also for an integer.\<close>

definition value_of :: "number \<Rightarrow> rat" where
  "value_of num = (case num of IntNum n \<Rightarrow> of_int n | FloatNum x \<Rightarrow> x)"

text \<open>
  \<^verbatim>\<open>%.1f\<close> of a float: the exact value rounded to one decimal, ties to the even digit.
  The minimum width 3 of \<^verbatim>\<open>%3.1f\<close> never pads: the shortest output, \<^verbatim>\<open>0.0\<close>, has three
  characters.
\<close>

definition round_half_even :: "rat \<Rightarrow> int" where
  "round_half_even q =
     (let f = \<lfloor>q\<rfloor>; d = q - of_int f
      in if d < 1 / 2 then f else if 1 / 2 < d then f + 1 else if even f then f else f + 1)"

definition fmt_1f :: "rat \<Rightarrow> string" where
  "fmt_1f x =
     (let t = nat (round_half_even (\<bar>x\<bar> * 10))
      in (if x < 0 then ''-'' else '''') @ str_nat (t div 10) @ ''.'' @ [digit_char (t mod 10)])"

text \<open>\<^verbatim>\<open>%d\<close> renders an integer as it is and truncates a float towards zero.\<close>

definition fmt_d :: "number \<Rightarrow> string" where
  "fmt_d num =
     (case num of
        IntNum n \<Rightarrow> str_int n
      | FloatNum x \<Rightarrow> str_int (if x < 0 then - \<lfloor>- x\<rfloor> else \<lfloor>x\<rfloor>))"

text \<open>
  The \<^verbatim>\<open>for unit in [...]\<close> loop; the empty list is the fall-through to \<^verbatim>\<open>Yi\<close>.  Both
  \<^verbatim>\<open>%.1f\<close> and the division by \<^verbatim>\<open>1024.0\<close> convert an integer to a float first; the
  division of a float by 1024 is exact.
\<close>

fun sizeof_loop :: "string list \<Rightarrow> number \<Rightarrow> string \<Rightarrow> error + string" where
  "sizeof_loop [] num suffix =
     (case to_float num of Inl e \<Rightarrow> Inl e | Inr x \<Rightarrow> Inr (fmt_1f x @ ''Yi'' @ suffix))"
| "sizeof_loop (unit # units) num suffix =
     (if \<bar>value_of num\<bar> < 1024 then
        (if unit \<noteq> '''' then
           (case to_float num of Inl e \<Rightarrow> Inl e | Inr x \<Rightarrow> Inr (fmt_1f x @ unit @ suffix))
         else Inr (fmt_d num @ unit @ suffix))
      else
        (case to_float num of
           Inl e \<Rightarrow> Inl e
         | Inr x \<Rightarrow> sizeof_loop units (FloatNum (x / 1024)) suffix))"

definition sizeof_fmt :: "int \<Rightarrow> string \<Rightarrow> error + string" where
  "sizeof_fmt num suffix =
     sizeof_loop ['''', ''Ki'', ''Mi'', ''Gi'', ''Ti'', ''Pi'', ''Ei'', ''Zi''] (IntNum num) suffix"

section \<open>Subject lines: \<^verbatim>\<open>groups2subjects\<close>\<close>

text \<open>
  A template of \<^verbatim>\<open>str.format\<close> in parsed form: literal text (with \<^verbatim>\<open>{{\<close> and \<^verbatim>\<open>}}\<close> already
  read as braces) and replacement fields \<^verbatim>\<open>{name}\<close>, given by their name in ASCII.
  Fields with an attribute, an index, a conversion or a format specification are
  outside this type.  \<^verbatim>\<open>groups2subjects\<close> passes keyword arguments only: a field whose
  name is empty or a number is positional and raises IndexError (ValueError when the
  number exceeds the largest index of a 64-bit build), and a field that is not among the
  keyword arguments raises KeyError.
\<close>

datatype piece = Lit string | Field string

type_synonym template = "piece list"

text \<open>The defaults: \<^verbatim>\<open>'{title} #{num} ({progress}/{total}) {size}'\<close> and \<^verbatim>\<open>'batch mailer'\<close>.\<close>

definition subject_fmt_default :: template where
  "subject_fmt_default =
     [Field ''title'', Lit '' #'', Field ''num'', Lit '' ('', Field ''progress'', Lit ''/'',
      Field ''total'', Lit '') '', Field ''size'']"

definition title_default :: string where
  "title_default = ''batch mailer''"

definition is_digit :: "char \<Rightarrow> bool" where
  "is_digit c = (48 \<le> (of_char c :: nat) \<and> (of_char c :: nat) \<le> 57)"

fun digits_value :: "nat \<Rightarrow> string \<Rightarrow> nat" where
  "digits_value acc [] = acc"
| "digits_value acc (c # cs) = digits_value (acc * 10 + (of_char c - 48)) cs"

definition positional_error :: "string \<Rightarrow> error option" where
  "positional_error n =
     (if list_all is_digit n then
        (if 2 ^ 63 - 1 < digits_value 0 n then Some ValueError else Some IndexError)
      else None)"

fun format :: "template \<Rightarrow> (string \<times> string) list \<Rightarrow> error + string" where
  "format [] kwargs = Inr []"
| "format (Lit s # ps) kwargs =
     (case format ps kwargs of Inl e \<Rightarrow> Inl e | Inr r \<Rightarrow> Inr (s @ r))"
| "format (Field n # ps) kwargs =
     (case positional_error n of
        Some e \<Rightarrow> Inl e
      | None \<Rightarrow>
          (case map_of kwargs n of
             None \<Rightarrow> Inl (KeyError n)
           | Some v \<Rightarrow> (case format ps kwargs of Inl e \<Rightarrow> Inl e | Inr r \<Rightarrow> Inr (v @ r))))"

text \<open>
  The keyword arguments of the \<^verbatim>\<open>format\<close> call, each rendered as \<^verbatim>\<open>str\<close> renders it;
  \<^verbatim>\<open>size\<close> is the text that \<^verbatim>\<open>sizeof_fmt(att_size)\<close> returned and \<^verbatim>\<open>progress\<close> is
  \<^verbatim>\<open>'%d-%d' % progress_tup\<close>.
\<close>

definition subject_kwargs ::
  "string \<Rightarrow> int \<Rightarrow> int \<Rightarrow> string \<Rightarrow> int \<times> int \<Rightarrow> (string \<times> string) list" where
  "subject_kwargs title num total_count size_text progress_tup =
     [(''title'', title), (''num'', str_int num), (''total'', str_int total_count),
      (''size'', size_text),
      (''progress'', str_int (fst progress_tup) @ ''-'' @ str_int (snd progress_tup))]"

text \<open>
  The \<^verbatim>\<open>for i, grp in enumerate(groups)\<close> loop; \<^verbatim>\<open>progress_tup\<close> and \<^verbatim>\<open>subjects\<close> are the
  loop's state.  The arguments are evaluated before \<^verbatim>\<open>format\<close> is called, so an
  exception of \<^verbatim>\<open>sizeof_fmt\<close> comes first.
\<close>

fun subjects_loop ::
  "string \<Rightarrow> template \<Rightarrow> int \<Rightarrow> int \<Rightarrow> int \<times> int \<Rightarrow> meta list list \<Rightarrow> string list
     \<Rightarrow> error + string list" where
  "subjects_loop title subject_fmt total_count i progress_tup [] subjects = Inr subjects"
| "subjects_loop title subject_fmt total_count i progress_tup (grp # groups) subjects =
     (let progress_tup' = (snd progress_tup + 1, snd progress_tup + int (length grp));
          att_size = group_size grp
      in case sizeof_fmt att_size ''B'' of
           Inl e \<Rightarrow> Inl e
         | Inr size_text \<Rightarrow>
             (case format subject_fmt
                     (subject_kwargs title (i + 1) total_count size_text progress_tup') of
                Inl e \<Rightarrow> Inl e
              | Inr this_subject \<Rightarrow>
                  subjects_loop title subject_fmt total_count (i + 1) progress_tup' groups
                    (subjects @ [this_subject])))"

definition groups2subjects :: "meta list list \<Rightarrow> string \<Rightarrow> template \<Rightarrow> error + string list" where
  "groups2subjects groups title subject_fmt =
     (let total_count = sum_list (map (\<lambda>x. int (length x)) groups)
      in subjects_loop title subject_fmt total_count 0 (0, 0) groups [])"

text \<open>
  For the statements: the number of records in the first \<open>k\<close> groups, and the first
  error (or all the results) of a list of results.
\<close>

definition members_before :: "meta list list \<Rightarrow> nat \<Rightarrow> int" where
  "members_before groups k = sum_list (map (\<lambda>g. int (length g)) (take k groups))"

fun collect :: "(error + 'a) list \<Rightarrow> error + 'a list" where
  "collect [] = Inr []"
| "collect (r # rs) =
     (case r of Inl e \<Rightarrow> Inl e
      | Inr x \<Rightarrow> (case collect rs of Inl e \<Rightarrow> Inl e | Inr xs \<Rightarrow> Inr (x # xs)))"

section \<open>Metadata as dictionaries\<close>

text \<open>
  The sorter and the JSON encoder look at a metadata record dynamically, as a nested
  dictionary.  The values are those that \<^verbatim>\<open>get_meta_data\<close> stores: \<^verbatim>\<open>None\<close>, integers,
  floats (the finite ones, as the rationals they denote), strings, byte strings (the
  thumbnail), a tuple of integers (the image size), dictionaries with string keys in
  insertion order, and, for the encoder, an object of some other class, with the value
  its \<^verbatim>\<open>__json__()\<close> returns if it has that method.
\<close>

datatype pyval =
    PNone
  | PInt int
  | PFloat rat
  | PStr string
  | PBytes "nat list"
  | PTuple "int list"
  | PDict "(string \<times> pyval) list"
  | PObj "pyval option"

section \<open>Sorting: \<^verbatim>\<open>sort_meta_data_list\<close>\<close>

text \<open>\<^verbatim>\<open>ordered_by.split('.')\<close>\<close>

fun split :: "char \<Rightarrow> string \<Rightarrow> string list" where
  "split sep [] = [[]]"
| "split sep (c # cs) =
     (if c = sep then [] # split sep cs
      else (case split sep cs of [] \<Rightarrow> [[c]] | w # ws \<Rightarrow> (c # w) # ws))"

text \<open>
  \<^verbatim>\<open>a < b\<close>: numbers compare by value, strings, byte strings and tuples of integers
  lexicographically, and every other pair of values raises TypeError.
\<close>

fun lex_lt :: "'a::linorder list \<Rightarrow> 'a list \<Rightarrow> bool" where
  "lex_lt [] [] = False"
| "lex_lt [] (y # ys) = True"
| "lex_lt (x # xs) [] = False"
| "lex_lt (x # xs) (y # ys) = (x < y \<or> (x = y \<and> lex_lt xs ys))"

fun py_lt :: "pyval \<Rightarrow> pyval \<Rightarrow> error + bool" where
  "py_lt (PInt i) (PInt j) = Inr (i < j)"
| "py_lt (PInt i) (PFloat r) = Inr (of_int i < r)"
| "py_lt (PFloat r) (PInt j) = Inr (r < of_int j)"
| "py_lt (PFloat r) (PFloat q) = Inr (r < q)"
| "py_lt (PStr s) (PStr t) = Inr (lex_lt (map of_char s :: nat list) (map of_char t))"
| "py_lt (PBytes s) (PBytes t) = Inr (lex_lt s t)"
| "py_lt (PTuple xs) (PTuple ys) = Inr (lex_lt xs ys)"
| "py_lt a b = Inl TypeError"

text \<open>The inner \<^verbatim>\<open>cmp\<close>; \<^verbatim>\<open>a > b\<close> is \<^verbatim>\<open>b < a\<close>.\<close>

definition cmp :: "pyval \<Rightarrow> pyval \<Rightarrow> error + int" where
  "cmp a b =
     (case py_lt a b of
        Inl e \<Rightarrow> Inl e
      | Inr True \<Rightarrow> Inr (- 1)
      | Inr False \<Rightarrow>
          (case py_lt b a of
             Inl e \<Rightarrow> Inl e
           | Inr True \<Rightarrow> Inr 1
           | Inr False \<Rightarrow> Inr 0))"

text \<open>\<^verbatim>\<open>isinstance(a, dict) and x in a\<close>, and then \<^verbatim>\<open>a[x]\<close>.\<close>

definition dict_get :: "pyval \<Rightarrow> string \<Rightarrow> pyval option" where
  "dict_get a x = (case a of PDict kvs \<Rightarrow> map_of kvs x | _ \<Rightarrow> None)"

text \<open>The \<^verbatim>\<open>for x in ordered_by.split('.')\<close> loop of \<^verbatim>\<open>key_cmp\<close>: \<open>a\<close> is tested first.\<close>

fun key_cmp_loop :: "string list \<Rightarrow> pyval \<Rightarrow> pyval \<Rightarrow> error + int" where
  "key_cmp_loop [] a b = cmp a b"
| "key_cmp_loop (x # xs) a b =
     (case dict_get a x of
        None \<Rightarrow> Inr (- 1)
      | Some a' \<Rightarrow>
          (case dict_get b x of
             None \<Rightarrow> Inr 1
           | Some b' \<Rightarrow> key_cmp_loop xs a' b'))"

definition key_cmp :: "string \<Rightarrow> pyval \<Rightarrow> pyval \<Rightarrow> error + int" where
  "key_cmp ordered_by a b = key_cmp_loop (split CHR ''.'' ordered_by) a b"

text \<open>
  \<^verbatim>\<open>functools.cmp_to_key\<close>: the key of \<open>a\<close> is below the key of \<open>b\<close> when
  \<^verbatim>\<open>key_cmp(a, b) < 0\<close>.
\<close>

definition key_lt :: "string \<Rightarrow> pyval \<Rightarrow> pyval \<Rightarrow> error + bool" where
  "key_lt ordered_by a b =
     (case key_cmp ordered_by a b of Inl e \<Rightarrow> Inl e | Inr c \<Rightarrow> Inr (c < 0))"

text \<open>
  \<^verbatim>\<open>list.sort\<close> belongs to the interpreter.  It is modelled by the stable insertion sort
  that only asks \<open>pivot < p\<close>, as the interpreter's binary insertion does: the elements
  are taken from left to right, and each one is put in front of the first element of the
  sorted part that it is below.  An exception of a comparison ends the sort.  With
  \<^verbatim>\<open>reverse=True\<close> the list is reversed before and after.
\<close>

fun insort_by :: "('a \<Rightarrow> 'a \<Rightarrow> error + bool) \<Rightarrow> 'a \<Rightarrow> 'a list \<Rightarrow> error + 'a list" where
  "insort_by lt x [] = Inr [x]"
| "insort_by lt x (y # ys) =
     (case lt x y of
        Inl e \<Rightarrow> Inl e
      | Inr True \<Rightarrow> Inr (x # y # ys)
      | Inr False \<Rightarrow> (case insort_by lt x ys of Inl e \<Rightarrow> Inl e | Inr r \<Rightarrow> Inr (y # r)))"

fun sort_loop :: "('a \<Rightarrow> 'a \<Rightarrow> error + bool) \<Rightarrow> 'a list \<Rightarrow> 'a list \<Rightarrow> error + 'a list" where
  "sort_loop lt [] acc = Inr acc"
| "sort_loop lt (x # xs) acc =
     (case insort_by lt x acc of Inl e \<Rightarrow> Inl e | Inr acc' \<Rightarrow> sort_loop lt xs acc')"

definition list_sort :: "('a \<Rightarrow> 'a \<Rightarrow> error + bool) \<Rightarrow> bool \<Rightarrow> 'a list \<Rightarrow> error + 'a list" where
  "list_sort lt reverse xs =
     (if reverse then (case sort_loop lt (rev xs) [] of Inl e \<Rightarrow> Inl e | Inr ys \<Rightarrow> Inr (rev ys))
      else sort_loop lt xs [])"

definition sort_meta_data_list :: "pyval list \<Rightarrow> string \<Rightarrow> bool \<Rightarrow> error + pyval list" where
  "sort_meta_data_list metas ordered_by reverse = list_sort (key_lt ordered_by) reverse metas"

text \<open>
  For the statements: the value of a record at the end of the dotted path, if every
  segment is found, and the lists in which no record with the path stands before one
  without it.
\<close>

fun get_path :: "string list \<Rightarrow> pyval \<Rightarrow> pyval option" where
  "get_path [] a = Some a"
| "get_path (x # xs) a = (case dict_get a x of None \<Rightarrow> None | Some a' \<Rightarrow> get_path xs a')"

definition has_path :: "string \<Rightarrow> pyval \<Rightarrow> bool" where
  "has_path ordered_by a = (get_path (split CHR ''.'' ordered_by) a \<noteq> None)"

fun lacking_first :: "('a \<Rightarrow> bool) \<Rightarrow> 'a list \<Rightarrow> bool" where
  "lacking_first has [] = True"
| "lacking_first has (y # ys) = (if has y then list_all has ys else lacking_first has ys)"

section \<open>The text part: \<^verbatim>\<open>group2text\<close> and the JSON encoder\<close>

text \<open>
  \<^verbatim>\<open>json.dumps(..., cls=JSONEncoder, ensure_ascii=False, indent=4)\<close>.  The encoder class
  decides what \<^verbatim>\<open>default\<close> does with a value the encoder cannot serialise: the standard
  library's class raises TypeError, the class of batchmail.py returns \<^verbatim>\<open>o.__json__()\<close> if
  the object has that method and \<^verbatim>\<open>None\<close> otherwise.
\<close>

datatype json_cls = StdEncoder | JSONEncoder

definition default_hook :: "json_cls \<Rightarrow> pyval \<Rightarrow> error + pyval" where
  "default_hook cls o' =
     (case cls of
        StdEncoder \<Rightarrow> Inl TypeError
      | JSONEncoder \<Rightarrow> (case o' of PObj (Some v) \<Rightarrow> Inr v | _ \<Rightarrow> Inr PNone))"

text \<open>
  Strings with \<^verbatim>\<open>ensure_ascii=False\<close>: the backslash, the double quote and the control
  characters are escaped, everything else is kept.
\<close>

definition hex_char :: "nat \<Rightarrow> char" where
  "hex_char d = ''0123456789abcdef'' ! (d mod 16)"

definition escape_char :: "char \<Rightarrow> string" where
  "escape_char c =
     (if c = CHR 0x5C then [CHR 0x5C, CHR 0x5C]
      else if c = CHR 0x22 then [CHR 0x5C, CHR 0x22]
      else if c = CHR 0x08 then [CHR 0x5C, CHR ''b'']
      else if c = CHR 0x0C then [CHR 0x5C, CHR ''f'']
      else if c = CHR 0x0A then [CHR 0x5C, CHR ''n'']
      else if c = CHR 0x0D then [CHR 0x5C, CHR ''r'']
      else if c = CHR 0x09 then [CHR 0x5C, CHR ''t'']
      else if (of_char c :: nat) < 0x20
        then [CHR 0x5C, CHR ''u'', CHR ''0'', CHR ''0'',
              hex_char (of_char c div 16), hex_char (of_char c mod 16)]
      else [c])"

definition encode_basestring :: "string \<Rightarrow> string" where
  "encode_basestring s = [CHR 0x22] @ concat (map escape_char s) @ [CHR 0x22]"

text \<open>The layout of a list or a dictionary with \<^verbatim>\<open>indent=4\<close>.\<close>

definition newline_indent :: "nat \<Rightarrow> string" where
  "newline_indent level = CHR 0x0A # replicate (4 * level) CHR '' ''"

fun join :: "string \<Rightarrow> string list \<Rightarrow> string" where
  "join sep [] = []"
| "join sep [s] = s"
| "join sep (s # t # ss) = s @ sep @ join sep (t # ss)"

definition layout :: "char \<Rightarrow> char \<Rightarrow> nat \<Rightarrow> string list \<Rightarrow> string" where
  "layout opening closing level items =
     (if items = [] then [opening, closing]
      else [opening] @ newline_indent (level + 1)
             @ join ('','' @ newline_indent (level + 1)) items
             @ newline_indent level @ [closing])"

text \<open>
  The encoder proper.  A value it cannot serialise is replaced by what \<^verbatim>\<open>default\<close>
  returns and encoded again; \<open>rank\<close> measures how often that can happen, for the
  termination proof.  The rendering of a float is a parameter.
\<close>

fun rank :: "pyval \<Rightarrow> nat" where
  "rank (PDict kvs) = Suc (sum_list (map (\<lambda>kv. Suc (rank (snd kv))) kvs))"
| "rank (PObj None) = 1"
| "rank (PObj (Some v)) = Suc (rank v)"
| "rank (PBytes b) = 1"
| "rank v = 0"

function (sequential)
  iterencode :: "json_cls \<Rightarrow> (rat \<Rightarrow> string) \<Rightarrow> nat \<Rightarrow> pyval \<Rightarrow> error + string"
  and iterencode_dict ::
    "json_cls \<Rightarrow> (rat \<Rightarrow> string) \<Rightarrow> nat \<Rightarrow> (string \<times> pyval) list \<Rightarrow> error + string list"
where
  "iterencode cls floatstr level (PStr s) = Inr (encode_basestring s)"
| "iterencode cls floatstr level PNone = Inr ''null''"
| "iterencode cls floatstr level (PInt i) = Inr (str_int i)"
| "iterencode cls floatstr level (PFloat r) = Inr (floatstr r)"
| "iterencode cls floatstr level (PTuple xs) =
     Inr (layout CHR ''['' CHR '']'' level (map str_int xs))"
| "iterencode cls floatstr level (PDict kvs) =
     (case iterencode_dict cls floatstr (level + 1) kvs of
        Inl e \<Rightarrow> Inl e
      | Inr items \<Rightarrow> Inr (layout CHR ''{'' CHR ''}'' level items))"
| "iterencode cls floatstr level o' =
     (case default_hook cls o' of
        Inl e \<Rightarrow> Inl e
      | Inr v \<Rightarrow> iterencode cls floatstr level v)"
| "iterencode_dict cls floatstr level [] = Inr []"
| "iterencode_dict cls floatstr level ((k, v) # kvs) =
     (case iterencode cls floatstr level v of
        Inl e \<Rightarrow> Inl e
      | Inr s \<Rightarrow>
          (case iterencode_dict cls floatstr level kvs of
             Inl e \<Rightarrow> Inl e
           | Inr items \<Rightarrow> Inr ((encode_basestring k @ '': '' @ s) # items)))"
  by pat_completeness auto
termination
  apply (relation "measure (\<lambda>x. case x of
            Inl (cls, floatstr, level, v) \<Rightarrow> 2 * rank v
          | Inr (cls, floatstr, level, kvs) \<Rightarrow>
              Suc (2 * sum_list (map (\<lambda>kv. Suc (rank (snd kv))) kvs)))")
  apply (auto simp: default_hook_def split: json_cls.splits option.splits)
  done

text \<open>The items of the list that \<^verbatim>\<open>group2text\<close> passes: \<^verbatim>\<open>[x for x in grp]\<close>.\<close>

fun iterencode_list ::
  "json_cls \<Rightarrow> (rat \<Rightarrow> string) \<Rightarrow> nat \<Rightarrow> pyval list \<Rightarrow> error + string list" where
  "iterencode_list cls floatstr level [] = Inr []"
| "iterencode_list cls floatstr level (v # vs) =
     (case iterencode cls floatstr level v of
        Inl e \<Rightarrow> Inl e
      | Inr s \<Rightarrow>
          (case iterencode_list cls floatstr level vs of
             Inl e \<Rightarrow> Inl e
           | Inr items \<Rightarrow> Inr (s # items)))"

text \<open>
  \<^verbatim>\<open>json.dumps(xs, cls=cls, ensure_ascii=False, indent=4)\<close> of a list, and \<^verbatim>\<open>json_encode\<close>,
  which fixes the class.
\<close>

definition dumps :: "json_cls \<Rightarrow> (rat \<Rightarrow> string) \<Rightarrow> pyval list \<Rightarrow> error + string" where
  "dumps cls floatstr xs =
     (case iterencode_list cls floatstr 1 xs of
        Inl e \<Rightarrow> Inl e
      | Inr items \<Rightarrow> Inr (layout CHR ''['' CHR '']'' 0 items))"

definition json_encode :: "(rat \<Rightarrow> string) \<Rightarrow> pyval list \<Rightarrow> error + string" where
  "json_encode floatstr xs = dumps JSONEncoder floatstr xs"

definition group2text :: "(rat \<Rightarrow> string) \<Rightarrow> pyval list \<Rightarrow> error + string" where
  "group2text floatstr grp = json_encode floatstr grp"

text \<open>
  For the statements: the record in which every value that the encoder cannot serialise
  is replaced, an object with \<^verbatim>\<open>__json__\<close> by what that method returns and every other
  one (a byte string, an object without the method) by \<^verbatim>\<open>None\<close>.
\<close>

fun null_marked :: "pyval \<Rightarrow> pyval" where
  "null_marked (PDict kvs) = PDict (map (\<lambda>kv. (fst kv, null_marked (snd kv))) kvs)"
| "null_marked (PBytes b) = PNone"
| "null_marked (PObj None) = PNone"
| "null_marked (PObj (Some v)) = null_marked v"
| "null_marked v = v"

section \<open>Properties of the grouping\<close>

subsection \<open>Lemmas about the loop\<close>

text \<open>Groups that are already closed are never touched again.\<close>

lemma groups_loop_prefix:
  "B \<noteq> [] \<Longrightarrow> groups_loop m xs (A @ B) t =
     (case groups_loop m xs B t of Inl e \<Rightarrow> Inl e | Inr gs \<Rightarrow> Inr (A @ gs))"
proof (induction xs arbitrary: B t)
  case Nil
  then show ?case by simp
next
  case (Cons x xs)
  have a: "butlast (A @ B) @ [last (A @ B) @ [x]] = A @ (butlast B @ [last B @ [x]])"
    using Cons.prems by (simp add: butlast_append)
  have b: "(A @ B) @ [[x]] = A @ (B @ [[x]])" by simp
  show ?case
    using Cons.prems Cons.IH[of "butlast B @ [last B @ [x]]"] Cons.IH[of "B @ [[x]]"]
    unfolding groups_loop.simps a b by simp
qed

lemma concat_butlast_last:
  "groups \<noteq> [] \<Longrightarrow> concat (butlast groups) @ last groups @ ys = concat groups @ ys"
  by (induction groups) auto

lemma groups_loop_concat:
  "groups \<noteq> [] \<Longrightarrow> groups_loop m xs groups t = Inr gs \<Longrightarrow> concat gs = concat groups @ xs"
proof (induction xs arbitrary: groups t)
  case Nil
  then show ?case by simp
next
  case (Cons x xs)
  show ?case
    using Cons.prems Cons.IH[of "butlast groups @ [last groups @ [x]]"] Cons.IH[of "groups @ [[x]]"]
    by (auto split: if_splits simp: concat_butlast_last)
qed

lemma groups_loop_ok:
  "groups \<noteq> [] \<Longrightarrow> \<forall>x\<in>set xs. file_size x \<le> m \<Longrightarrow> \<exists>gs. groups_loop m xs groups t = Inr gs"
  by (induction xs arbitrary: groups t) auto

lemma groups_loop_oversize:
  "groups \<noteq> [] \<Longrightarrow> find (\<lambda>x. file_size x > m) xs = Some x \<Longrightarrow>
    groups_loop m xs groups t = Inl (Exception (exceed_message x m))"
  by (induction xs arbitrary: groups t) auto

text \<open>
  Once the running total has reached the limit, the current group stays as it is: the
  next record, whatever its size (sizes are not negative), opens a new group.
\<close>

lemma groups_loop_full:
  assumes "m \<le> t" "\<forall>y\<in>set xs. 0 \<le> file_size y \<and> file_size y \<le> m"
  shows "\<exists>gs. groups_loop m xs (B @ [g]) t = Inr (B @ g # gs) \<and> concat gs = xs"
proof (cases xs)
  case Nil
  then show ?thesis by simp
next
  case (Cons y ys)
  from assms(2) Cons obtain gs where gs: "groups_loop m ys [[y]] (file_size y) = Inr gs"
    using groups_loop_ok[of "[[y]]" ys m "file_size y"] by auto
  then have c: "concat gs = y # ys"
    using groups_loop_concat[of "[[y]]" m ys "file_size y" gs] by simp
  have "groups_loop m xs (B @ [g]) t = groups_loop m ys ((B @ [g]) @ [[y]]) (file_size y)"
    using assms Cons by simp
  also have "\<dots> = Inr ((B @ [g]) @ gs)"
    using groups_loop_prefix[of "[[y]]" m ys "B @ [g]" "file_size y"] gs by simp
  finally show ?thesis using c Cons by simp
qed

lemma groups_loop_exact:
  assumes "groups \<noteq> []" "0 \<le> t"
    "\<forall>y\<in>set (pre @ x # post). 0 \<le> file_size y \<and> file_size y \<le> m" "file_size x = m"
  shows "\<exists>gpre gpost. groups_loop m (pre @ x # post) groups t = Inr (gpre @ [x] # gpost)
           \<and> gpre \<noteq> [] \<and> concat gpre = concat groups @ pre \<and> concat gpost = post"
  using assms
proof (induction pre arbitrary: groups t)
  case Nil
  have "groups_loop m (x # post) groups t = groups_loop m post (groups @ [[x]]) m"
    using Nil.prems by simp
  moreover obtain gs where
    "groups_loop m post (groups @ [[x]]) m = Inr (groups @ [x] # gs)" "concat gs = post"
    using groups_loop_full[of m m post groups "[x]"] Nil.prems by auto
  ultimately show ?case using Nil.prems(1) by auto
next
  case (Cons p ps)
  show ?case
  proof (cases "file_size p + t < m")
    case True
    let ?g = "butlast groups @ [last groups @ [p]]"
    have s: "groups_loop m ((p # ps) @ x # post) groups t
              = groups_loop m (ps @ x # post) ?g (t + file_size p)"
      using True Cons.prems by simp
    have "\<exists>gpre gpost. groups_loop m (ps @ x # post) ?g (t + file_size p) = Inr (gpre @ [x] # gpost)
           \<and> gpre \<noteq> [] \<and> concat gpre = concat ?g @ ps \<and> concat gpost = post"
      using Cons.prems by (intro Cons.IH) auto
    then show ?thesis unfolding s using Cons.prems(1) by (simp add: concat_butlast_last)
  next
    case False
    let ?g = "groups @ [[p]]"
    have s: "groups_loop m ((p # ps) @ x # post) groups t
              = groups_loop m (ps @ x # post) ?g (file_size p)"
      using False Cons.prems by simp
    have "\<exists>gpre gpost. groups_loop m (ps @ x # post) ?g (file_size p) = Inr (gpre @ [x] # gpost)
           \<and> gpre \<noteq> [] \<and> concat gpre = concat ?g @ ps \<and> concat gpost = post"
      using Cons.prems by (intro Cons.IH) auto
    then show ?thesis unfolding s by simp
  qed
qed

text \<open>
  What the loop does guarantee about the totals: with sizes that are not negative, no
  group exceeds the limit.  The limit itself can be reached.
\<close>

lemma groups_loop_bound:
  assumes "groups \<noteq> []" "\<forall>g\<in>set groups. group_size g \<le> m" "group_size (last groups) = t"
    "\<forall>y\<in>set xs. 0 \<le> file_size y" "groups_loop m xs groups t = Inr gs"
  shows "\<forall>g\<in>set gs. group_size g \<le> m"
  using assms
proof (induction xs arbitrary: groups t)
  case Nil
  then show ?case by simp
next
  case (Cons x xs)
  show ?case
  proof (cases "file_size x + t < m")
    case True
    let ?g = "butlast groups @ [last groups @ [x]]"
    have "groups_loop m xs ?g (t + file_size x) = Inr gs"
      using True Cons.prems by (simp split: if_splits)
    moreover have "\<forall>g\<in>set ?g. group_size g \<le> m"
      using True Cons.prems(1,2,3) by (auto simp: group_size_def dest: in_set_butlastD)
    moreover have "group_size (last ?g) = t + file_size x"
      using Cons.prems(3) by (simp add: group_size_def)
    ultimately show ?thesis
      using Cons.prems(4) by (intro Cons.IH[of ?g "t + file_size x"]) auto
  next
    case False
    let ?g = "groups @ [[x]]"
    have "groups_loop m xs ?g (file_size x) = Inr gs"
      using False Cons.prems by (simp split: if_splits)
    moreover have "\<forall>g\<in>set ?g. group_size g \<le> m"
      using False Cons.prems by (auto simp: group_size_def split: if_splits)
    ultimately show ?thesis
      using Cons.prems(4) by (intro Cons.IH[of ?g "file_size x"]) (auto simp: group_size_def)
  qed
qed

lemma meta_data2groups_total_le:
  assumes "0 \<le> max_size" "\<forall>y\<in>set meta_data. 0 \<le> file_size y"
    "meta_data2groups meta_data max_size = Inr groups"
  shows "\<forall>g\<in>set groups. group_size g \<le> max_size"
  using groups_loop_bound[of "[[]]" max_size 0 meta_data groups] assms
  by (simp add: meta_data2groups_def group_size_def)

subsection \<open>The claims about the grouping\<close>

text \<open>
  C1: every group of a successful call has a total size strictly below \<open>max_size\<close>.
  The code does not keep this: a single file of size 10 with \<open>max_size = 10\<close> is accepted
  (the guard is \<open>>\<close>), the empty first group is left behind, and the second group has
  total 10, which is not below 10.
\<close>

theorem meta_data2groups_total_reaches_limit:
  "meta_data2groups [\<lparr>file_name = ''a'', file_path = ''a'', file_size = 10\<rparr>] 10
     = Inr [[], [\<lparr>file_name = ''a'', file_path = ''a'', file_size = 10\<rparr>]]
   \<and> \<not> group_size [\<lparr>file_name = ''a'', file_path = ''a'', file_size = 10\<rparr>] < 10"
  by (simp add: meta_data2groups_def group_size_def)

text \<open>
  C2: if some record is larger than \<open>max_size\<close>, the call raises the exception whose
  message is \<^verbatim>\<open>file "NAME", size SIZE, exceed max_size LIMIT\<close> and a newline, with the
  file name and the size of the first such record and the limit in decimal, so no group
  is returned at all; if no record is larger than \<open>max_size\<close>, the call returns groups
  and raises nothing.
\<close>

theorem meta_data2groups_oversize:
  "((\<exists>x \<in> set meta_data. file_size x > max_size) \<longrightarrow>
      (\<exists>x \<in> set meta_data. file_size x > max_size
         \<and> find (\<lambda>x. file_size x > max_size) meta_data = Some x
         \<and> meta_data2groups meta_data max_size
             = Inl (Exception (''file '' @ [CHR 0x22] @ file_name x @ [CHR 0x22]
                      @ '', size '' @ str_int (file_size x)
                      @ '', exceed max_size '' @ str_int max_size @ [CHR 0x0A]))))
   \<and> ((\<forall>x \<in> set meta_data. file_size x \<le> max_size) \<longrightarrow>
      (\<exists>groups. meta_data2groups meta_data max_size = Inr groups))"
proof (intro conjI impI)
  assume "\<exists>x \<in> set meta_data. file_size x > max_size"
  then obtain x where x: "find (\<lambda>x. file_size x > max_size) meta_data = Some x"
    by (cases "find (\<lambda>x. file_size x > max_size) meta_data") (auto simp: find_None_iff)
  then have "x \<in> set meta_data" "file_size x > max_size"
    by (auto simp: find_Some_iff)
  moreover have "meta_data2groups meta_data max_size = Inl (Exception (exceed_message x max_size))"
    using groups_loop_oversize[of "[[]]" max_size meta_data x 0] x
    by (simp add: meta_data2groups_def)
  ultimately show "\<exists>x \<in> set meta_data. file_size x > max_size
         \<and> find (\<lambda>x. file_size x > max_size) meta_data = Some x
         \<and> meta_data2groups meta_data max_size
             = Inl (Exception (''file '' @ [CHR 0x22] @ file_name x @ [CHR 0x22]
                      @ '', size '' @ str_int (file_size x)
                      @ '', exceed max_size '' @ str_int max_size @ [CHR 0x0A]))"
    unfolding exceed_message_def using x by blast
next
  assume "\<forall>x \<in> set meta_data. file_size x \<le> max_size"
  then show "\<exists>groups. meta_data2groups meta_data max_size = Inr groups"
    using groups_loop_ok[of "[[]]" meta_data max_size 0] by (simp add: meta_data2groups_def)
qed

theorem meta_data2groups_oversize_witness:
  "(\<exists>x \<in> set [\<lparr>file_name = ''a'', file_path = ''a'', file_size = 3\<rparr>,
               \<lparr>file_name = ''b.jpg'', file_path = ''b.jpg'', file_size = 11\<rparr>,
               \<lparr>file_name = ''c'', file_path = ''c'', file_size = 12\<rparr>]. file_size x > 10)
   \<and> meta_data2groups [\<lparr>file_name = ''a'', file_path = ''a'', file_size = 3\<rparr>,
               \<lparr>file_name = ''b.jpg'', file_path = ''b.jpg'', file_size = 11\<rparr>,
               \<lparr>file_name = ''c'', file_path = ''c'', file_size = 12\<rparr>] 10
      = Inl (Exception (''file '' @ [CHR 0x22] @ ''b.jpg'' @ [CHR 0x22]
                         @ '', size 11, exceed max_size 10'' @ [CHR 0x0A]))
   \<and> file_size \<lparr>file_name = ''a'', file_path = ''a'', file_size = 3\<rparr> \<le> 10
   \<and> (\<exists>groups. meta_data2groups [\<lparr>file_name = ''a'', file_path = ''a'', file_size = 3\<rparr>] 10
         = Inr groups)"
  using meta_data2groups_oversize
          [of "[\<lparr>file_name = ''a'', file_path = ''a'', file_size = 3\<rparr>,
               \<lparr>file_name = ''b.jpg'', file_path = ''b.jpg'', file_size = 11\<rparr>,
               \<lparr>file_name = ''c'', file_path = ''c'', file_size = 12\<rparr>]" 10]
        meta_data2groups_oversize
          [of "[\<lparr>file_name = ''a'', file_path = ''a'', file_size = 3\<rparr>]" 10]
  by (simp add: str_int_def str_nat.simps digit_char_def)

text \<open>
  C3: when the call succeeds, the groups, concatenated in order, are the input list:
  no record is dropped, duplicated or moved.
\<close>

theorem meta_data2groups_concat:
  "meta_data2groups meta_data max_size = Inr groups \<Longrightarrow> concat groups = meta_data"
  using groups_loop_concat[of "[[]]" max_size meta_data 0 groups]
  by (simp add: meta_data2groups_def)

theorem meta_data2groups_concat_witness:
  "meta_data2groups [\<lparr>file_name = ''a'', file_path = ''a'', file_size = 4\<rparr>,
                     \<lparr>file_name = ''b'', file_path = ''b'', file_size = 3\<rparr>,
                     \<lparr>file_name = ''c'', file_path = ''c'', file_size = 5\<rparr>] 10
     = Inr [[\<lparr>file_name = ''a'', file_path = ''a'', file_size = 4\<rparr>,
             \<lparr>file_name = ''b'', file_path = ''b'', file_size = 3\<rparr>],
            [\<lparr>file_name = ''c'', file_path = ''c'', file_size = 5\<rparr>]]
   \<and> concat [[\<lparr>file_name = ''a'', file_path = ''a'', file_size = 4\<rparr>,
               \<lparr>file_name = ''b'', file_path = ''b'', file_size = 3\<rparr>],
              [\<lparr>file_name = ''c'', file_path = ''c'', file_size = 5\<rparr>]]
     = [\<lparr>file_name = ''a'', file_path = ''a'', file_size = 4\<rparr>,
        \<lparr>file_name = ''b'', file_path = ''b'', file_size = 3\<rparr>,
        \<lparr>file_name = ''c'', file_path = ''c'', file_size = 5\<rparr>]"
proof -
  have h: "meta_data2groups [\<lparr>file_name = ''a'', file_path = ''a'', file_size = 4\<rparr>,
                     \<lparr>file_name = ''b'', file_path = ''b'', file_size = 3\<rparr>,
                     \<lparr>file_name = ''c'', file_path = ''c'', file_size = 5\<rparr>] 10
     = Inr [[\<lparr>file_name = ''a'', file_path = ''a'', file_size = 4\<rparr>,
             \<lparr>file_name = ''b'', file_path = ''b'', file_size = 3\<rparr>],
            [\<lparr>file_name = ''c'', file_path = ''c'', file_size = 5\<rparr>]]"
    by (simp add: meta_data2groups_def)
  show ?thesis using h meta_data2groups_concat[OF h] by simp
qed

text \<open>
  C4: for every \<open>max_size\<close>, the empty input gives exactly one group, and that group is
  empty.
\<close>

theorem meta_data2groups_empty:
  "meta_data2groups [] max_size = Inr [[]]"
  by (simp add: meta_data2groups_def)

text \<open>
  C9: a record whose size is exactly \<open>max_size\<close> is accepted, and it ends up alone in a
  group that was newly started for it (never the initial group), so that this group's
  total is exactly \<open>max_size\<close>.  The records before it fill the groups before, the records
  after it the groups after.  File sizes are byte counts, hence not negative, and no
  other record of the list is oversized (that record would abort the call).
\<close>

theorem meta_data2groups_exact_fit:
  assumes "\<forall>y \<in> set (pre @ x # post). 0 \<le> file_size y \<and> file_size y \<le> max_size"
    and "file_size x = max_size"
  shows "\<exists>gpre gpost. meta_data2groups (pre @ x # post) max_size = Inr (gpre @ [x] # gpost)
           \<and> gpre \<noteq> [] \<and> concat gpre = pre \<and> concat gpost = post
           \<and> group_size [x] = max_size"
  using groups_loop_exact[of "[[]]" 0 pre x post max_size] assms
  by (simp add: meta_data2groups_def group_size_def)

theorem meta_data2groups_exact_fit_witness:
  "list_all (\<lambda>y. 0 \<le> file_size y \<and> file_size y \<le> 10)
       ([\<lparr>file_name = ''a'', file_path = ''a'', file_size = 4\<rparr>]
               @ \<lparr>file_name = ''b'', file_path = ''b'', file_size = 10\<rparr>
               # [\<lparr>file_name = ''c'', file_path = ''c'', file_size = 0\<rparr>])
   \<and> file_size \<lparr>file_name = ''b'', file_path = ''b'', file_size = 10\<rparr> = 10
   \<and> meta_data2groups [\<lparr>file_name = ''a'', file_path = ''a'', file_size = 4\<rparr>,
                       \<lparr>file_name = ''b'', file_path = ''b'', file_size = 10\<rparr>,
                       \<lparr>file_name = ''c'', file_path = ''c'', file_size = 0\<rparr>] 10
      = Inr [[\<lparr>file_name = ''a'', file_path = ''a'', file_size = 4\<rparr>],
             [\<lparr>file_name = ''b'', file_path = ''b'', file_size = 10\<rparr>],
             [\<lparr>file_name = ''c'', file_path = ''c'', file_size = 0\<rparr>]]
   \<and> (\<exists>gpre gpost.
        meta_data2groups ([\<lparr>file_name = ''a'', file_path = ''a'', file_size = 4\<rparr>]
               @ \<lparr>file_name = ''b'', file_path = ''b'', file_size = 10\<rparr>
               # [\<lparr>file_name = ''c'', file_path = ''c'', file_size = 0\<rparr>]) 10
          = Inr (gpre @ [\<lparr>file_name = ''b'', file_path = ''b'', file_size = 10\<rparr>] # gpost)
        \<and> gpre \<noteq> []
        \<and> concat gpre = [\<lparr>file_name = ''a'', file_path = ''a'', file_size = 4\<rparr>]
        \<and> concat gpost = [\<lparr>file_name = ''c'', file_path = ''c'', file_size = 0\<rparr>]
        \<and> group_size [\<lparr>file_name = ''b'', file_path = ''b'', file_size = 10\<rparr>] = 10)"
proof -
  have h1: "\<forall>y \<in> set ([\<lparr>file_name = ''a'', file_path = ''a'', file_size = 4\<rparr>]
               @ \<lparr>file_name = ''b'', file_path = ''b'', file_size = 10\<rparr>
               # [\<lparr>file_name = ''c'', file_path = ''c'', file_size = 0\<rparr>]).
       0 \<le> file_size y \<and> file_size y \<le> 10"
    by simp
  have h2: "file_size \<lparr>file_name = ''b'', file_path = ''b'', file_size = 10\<rparr> = 10"
    by simp
  have h3: "meta_data2groups [\<lparr>file_name = ''a'', file_path = ''a'', file_size = 4\<rparr>,
                       \<lparr>file_name = ''b'', file_path = ''b'', file_size = 10\<rparr>,
                       \<lparr>file_name = ''c'', file_path = ''c'', file_size = 0\<rparr>] 10
      = Inr [[\<lparr>file_name = ''a'', file_path = ''a'', file_size = 4\<rparr>],
             [\<lparr>file_name = ''b'', file_path = ''b'', file_size = 10\<rparr>],
             [\<lparr>file_name = ''c'', file_path = ''c'', file_size = 0\<rparr>]]"
    by (simp add: meta_data2groups_def)
  have h4: "list_all (\<lambda>y. 0 \<le> file_size y \<and> file_size y \<le> 10)
       ([\<lparr>file_name = ''a'', file_path = ''a'', file_size = 4\<rparr>]
               @ \<lparr>file_name = ''b'', file_path = ''b'', file_size = 10\<rparr>
               # [\<lparr>file_name = ''c'', file_path = ''c'', file_size = 0\<rparr>])"
    by simp
  from meta_data2groups_exact_fit[OF h1 h2] h2 h3 h4 show ?thesis by blast
qed

section \<open>Properties of the size format\<close>

lemma bitlen_le_iff: "bitlen a \<le> k \<longleftrightarrow> a < 2 ^ k"
proof (induction a arbitrary: k rule: bitlen.induct)
  case (1 n)
  show ?case
  proof (cases "n \<le> 0")
    case True
    have "(0 :: int) < 2 ^ k" by simp
    with True have "n < 2 ^ k" by linarith
    with True show ?thesis by (simp add: bitlen.simps[of n])
  next
    case False
    show ?thesis
    proof (cases k)
      case 0
      with False show ?thesis by (simp add: bitlen.simps[of n])
    next
      case (Suc j)
      define m where "m = (2 :: int) ^ j"
      have "bitlen n \<le> Suc j \<longleftrightarrow> bitlen (n div 2) \<le> j"
        using False by (simp add: bitlen.simps[of n])
      also have "\<dots> \<longleftrightarrow> n div 2 < m"
        unfolding m_def using 1[OF False, of j] .
      also have "\<dots> \<longleftrightarrow> n < 2 * m"
        by presburger
      finally show ?thesis using Suc by (simp add: m_def)
    qed
  qed
qed

text \<open>Below \<open>2^53\<close> the conversion to a float is exact.\<close>

lemma float_of_int_exact: "\<bar>n\<bar> < 2 ^ 53 \<Longrightarrow> float_of_int n = Inr (of_int n)"
proof -
  assume "\<bar>n\<bar> < 2 ^ 53"
  then have "bitlen \<bar>n\<bar> \<le> 53"
    by (simp only: bitlen_le_iff)
  then show ?thesis
    by (simp add: float_of_int_def Let_def)
qed

lemma round_half_even_close:
  assumes "0 \<le> q"
  shows "0 \<le> round_half_even q" and "\<bar>of_int (round_half_even q) - q\<bar> \<le> 1 / 2"
proof -
  have f0: "0 \<le> \<lfloor>q\<rfloor>" using assms by simp
  have lo: "of_int \<lfloor>q\<rfloor> \<le> q" by simp
  have hi: "q < of_int \<lfloor>q\<rfloor> + 1" by linarith
  show "0 \<le> round_half_even q"
    using f0 by (simp add: round_half_even_def Let_def)
  show "\<bar>of_int (round_half_even q) - q\<bar> \<le> 1 / 2"
    using lo hi by (simp add: round_half_even_def Let_def)
qed

text \<open>
  \<^verbatim>\<open>%.1f\<close> writes a sign, the digits of a whole number, a point and one more digit, and
  the number written is within half a tenth of the value.
\<close>

lemma fmt_1f_shape:
  "\<exists>t. fmt_1f x = (if x < 0 then ''-'' else '''') @ str_nat (t div 10) @ ''.''
                      @ [digit_char (t mod 10)]
       \<and> \<bar>of_nat t - \<bar>x\<bar> * 10\<bar> \<le> 1 / 2"
proof -
  let ?r = "round_half_even (\<bar>x\<bar> * 10)"
  have q: "0 \<le> \<bar>x\<bar> * 10" by simp
  have "0 \<le> ?r" and c: "\<bar>of_int ?r - \<bar>x\<bar> * 10\<bar> \<le> 1 / 2"
    using round_half_even_close[OF q] by auto
  then have "(of_nat (nat ?r) :: rat) = of_int ?r"
    by simp
  with c have "\<bar>of_nat (nat ?r) - \<bar>x\<bar> * 10\<bar> \<le> 1 / 2"
    by simp
  moreover have "fmt_1f x = (if x < 0 then ''-'' else '''') @ str_nat (nat ?r div 10) @ ''.''
                      @ [digit_char (nat ?r mod 10)]"
    by (simp add: fmt_1f_def Let_def)
  ultimately show ?thesis by blast
qed

text \<open>
  The loop on a float, for any list of prefixes: it stops at the first prefix where the
  magnitude is below 1024 and falls through to \<^verbatim>\<open>Yi\<close> when there is none.
\<close>

lemma sizeof_loop_float:
  assumes "'''' \<notin> set us"
  shows "\<exists>j. j \<le> length us
           \<and> sizeof_loop us (FloatNum x) suffix
               = Inr (fmt_1f (x / 1024 ^ j) @ ((us @ [''Yi'']) ! j) @ suffix)
           \<and> (j < length us \<longrightarrow> \<bar>x\<bar> < 1024 ^ (j + 1))
           \<and> (0 < j \<longrightarrow> 1024 ^ j \<le> \<bar>x\<bar>)"
  using assms
proof (induction us arbitrary: x)
  case Nil
  then show ?case by (simp add: to_float_def)
next
  case (Cons u us)
  show ?case
  proof (cases "\<bar>x\<bar> < 1024")
    case True
    with Cons.prems have "sizeof_loop (u # us) (FloatNum x) suffix
        = Inr (fmt_1f (x / 1024 ^ 0) @ (((u # us) @ [''Yi'']) ! 0) @ suffix)"
      by (auto simp: to_float_def value_of_def)
    with True show ?thesis by (intro exI[of _ 0]) simp
  next
    case False
    from Cons.prems have "'''' \<notin> set us" by simp
    from Cons.IH[OF this, of "x / 1024"] obtain j where j: "j \<le> length us"
      "sizeof_loop us (FloatNum (x / 1024)) suffix
         = Inr (fmt_1f (x / 1024 / 1024 ^ j) @ ((us @ [''Yi'']) ! j) @ suffix)"
      "j < length us \<longrightarrow> \<bar>x / 1024\<bar> < 1024 ^ (j + 1)"
      "0 < j \<longrightarrow> 1024 ^ j \<le> \<bar>x / 1024\<bar>"
      by blast
    have a: "sizeof_loop (u # us) (FloatNum x) suffix
        = Inr (fmt_1f (x / 1024 ^ Suc j) @ (((u # us) @ [''Yi'']) ! Suc j) @ suffix)"
      using False j(2) by (simp add: to_float_def value_of_def)
    have b: "Suc j < length (u # us) \<longrightarrow> \<bar>x\<bar> < 1024 ^ (Suc j + 1)"
      using j(3) by (simp add: field_simps)
    have c: "1024 ^ Suc j \<le> \<bar>x\<bar>"
    proof (cases "0 < j")
      case True
      with j(4) show ?thesis by (simp add: field_simps)
    next
      case False
      with \<open>\<not> \<bar>x\<bar> < 1024\<close> show ?thesis by simp
    qed
    from a b c j(1) show ?thesis by (intro exI[of _ "Suc j"]) simp
  qed
qed

lemma abs_rat_lt_1024: "(\<bar>rat_of_int n\<bar> < 1024) = (\<bar>n\<bar> < 1024)"
proof -
  have "\<bar>rat_of_int n\<bar> = rat_of_int \<bar>n\<bar>" by simp
  then show ?thesis by (simp only: of_int_less_numeral_iff)
qed

text \<open>An integer beyond the range of a float makes the first division raise.\<close>

lemma sizeof_fmt_overflow:
  "1024 \<le> \<bar>num\<bar> \<Longrightarrow> float_of_int num = Inl e \<Longrightarrow> sizeof_fmt num suffix = Inl e"
  by (simp add: sizeof_fmt_def value_of_def to_float_def abs_rat_lt_1024)

subsection \<open>The conversion to a float\<close>

lemma bitlen_eq: "2 ^ k \<le> a \<Longrightarrow> a < 2 ^ Suc k \<Longrightarrow> bitlen a = Suc k"
proof -
  assume lo: "2 ^ k \<le> a" and hi: "a < 2 ^ Suc k"
  have "bitlen a \<le> Suc k" using hi by (simp only: bitlen_le_iff)
  moreover have "\<not> bitlen a \<le> k" using lo by (simp only: bitlen_le_iff not_less)
  ultimately show ?thesis by simp
qed

lemma bitlen_lower: "0 < a \<Longrightarrow> 2 ^ (bitlen a - 1) \<le> a"
proof -
  assume "0 < a"
  then have "bitlen a \<noteq> 0" by (simp add: bitlen.simps[of a])
  then have "\<not> bitlen a \<le> bitlen a - 1" by simp
  then show ?thesis by (simp only: bitlen_le_iff not_less)
qed

text \<open>
  Rounding to 53 bits moves an integer by at most one part in \<open>2^53\<close>, and the result
  is a significand of at most 53 bits (or \<open>2^53\<close>) times a power of two.
\<close>

lemma round_53_close:
  assumes e: "53 < bitlen a"
  shows "\<bar>round_53 a - a\<bar> * 2 ^ 53 \<le> a"
    and "\<exists>m. round_53 a = m * 2 ^ (bitlen a - 53) \<and> 0 \<le> m \<and> m \<le> 2 ^ 53"
proof -
  define s where "s = bitlen a - 53"
  define h where "h = (2 :: int) ^ (s - 1)"
  define q where "q = a div (2 * h)"
  define r where "r = a mod (2 * h)"
  define q' where "q' = (if h < r \<or> (r = h \<and> odd q) then q + 1 else q)"
  have s1: "1 \<le> s" using e by (simp add: s_def)
  have two: "(2 :: int) ^ s = 2 * h"
    using s1 by (cases s) (simp_all add: h_def)
  have v: "round_53 a = q' * (2 * h)"
    unfolding round_53_def Let_def s_def[symmetric] two h_def[symmetric]
    by (simp add: q_def r_def q'_def)
  have hpos: "0 < h" by (simp add: h_def)
  have a: "a = q * (2 * h) + r" by (simp only: q_def r_def div_mult_mod_eq)
  have r0: "0 \<le> r" and rlt: "r < 2 * h" using hpos by (simp_all add: r_def)
  have apos: "0 < a" using e by (cases "a \<le> 0") (simp_all add: bitlen.simps[of a])
  have "2 ^ (bitlen a - 1) \<le> a" using apos by (rule bitlen_lower)
  moreover have "bitlen a - 1 = (s - 1) + 53" using e by (simp add: s_def)
  ultimately have low: "h * 2 ^ 53 \<le> a" by (simp add: power_add h_def)
  define P where "P = q * (2 * h)"
  have ia: "a = P + r" using a by (simp add: P_def)
  have d: "\<bar>q' * (2 * h) - a\<bar> \<le> h"
  proof (cases "h < r \<or> (r = h \<and> odd q)")
    case True
    then have "q' = q + 1"
      unfolding q'_def by (simp only: if_True)
    then have "q' * (2 * h) = P + 2 * h"
      by (simp add: P_def algebra_simps)
    moreover from True have "h \<le> r" by auto
    ultimately show ?thesis using rlt ia by linarith
  next
    case False
    then have "q' = q"
      unfolding q'_def by (simp only: if_False)
    then have "q' * (2 * h) = P"
      by (simp add: P_def)
    moreover from False have "r \<le> h" by auto
    ultimately show ?thesis using r0 ia by linarith
  qed
  have "\<bar>round_53 a - a\<bar> * 2 ^ 53 \<le> h * 2 ^ 53"
    unfolding v using d by (simp add: mult_right_mono)
  with low show "\<bar>round_53 a - a\<bar> * 2 ^ 53 \<le> a"
    by linarith
  have "a < 2 ^ bitlen a" using bitlen_le_iff[of a "bitlen a"] by simp
  moreover have "bitlen a = 53 + s" using e by (simp add: s_def)
  ultimately have "a < 2 ^ 53 * 2 ^ s" by (simp only: power_add)
  define c where "c = 2 * h"
  define K where "K = (2 :: int) ^ 53"
  have cpos: "0 < c" using hpos by (simp add: c_def)
  have "a < K * c" using \<open>a < 2 ^ 53 * 2 ^ s\<close> unfolding two K_def c_def .
  moreover have "q * c \<le> a" using a r0 unfolding c_def by linarith
  ultimately have "q * c < K * c" by linarith
  then have "q < K" using cpos by (simp add: mult_less_cancel_right)
  then have qlt: "q < 2 ^ 53" by (simp only: K_def)
  have "0 \<le> q" using apos hpos by (simp add: q_def pos_imp_zdiv_nonneg_iff)
  with qlt have "0 \<le> q'" "q' \<le> 2 ^ 53" by (simp_all add: q'_def)
  with v show "\<exists>m. round_53 a = m * 2 ^ (bitlen a - 53) \<and> 0 \<le> m \<and> m \<le> 2 ^ 53"
    unfolding s_def[symmetric] two by blast
qed

lemma float_of_int_big:
  assumes "\<not> bitlen \<bar>n\<bar> \<le> 53" and "float_of_int n = Inr x"
  shows "x = of_int (if n < 0 then - round_53 \<bar>n\<bar> else round_53 \<bar>n\<bar>)"
proof (cases "2 ^ 1024 \<le> round_53 \<bar>n\<bar>")
  case True
  with assms show ?thesis
    unfolding float_of_int_def Let_def by (simp only: if_True if_False sum.distinct)
next
  case False
  with assms show ?thesis
    unfolding float_of_int_def Let_def by (simp only: if_False sum.inject)
qed

text \<open>
  The float of an integer is within one part in \<open>2^53\<close> of it, and it is a significand
  of at most 53 bits times a power of two.
\<close>

lemma float_of_int_nearest:
  assumes "float_of_int n = Inr x"
  shows "\<bar>x - of_int n\<bar> * 2 ^ 53 \<le> \<bar>of_int n\<bar>"
    and "\<exists>m s. \<bar>x\<bar> = of_int m * 2 ^ s \<and> 0 \<le> m \<and> m \<le> 2 ^ 53"
proof -
  let ?a = "\<bar>n\<bar>"
  let ?v = "round_53 ?a"
  show "\<bar>x - of_int n\<bar> * 2 ^ 53 \<le> \<bar>of_int n\<bar>"
  proof (cases "bitlen ?a \<le> 53")
    case True
    with assms have "x = of_int n" by (simp add: float_of_int_def Let_def)
    then show ?thesis by simp
  next
    case False
    then have e: "53 < bitlen ?a" by simp
    have x: "x = of_int (if n < 0 then - ?v else ?v)"
      using False assms by (rule float_of_int_big)
    have c: "\<bar>?v - ?a\<bar> * 2 ^ 53 \<le> ?a"
      using round_53_close(1)[OF e] .
    have "\<bar>(if n < 0 then - ?v else ?v) - n\<bar> = \<bar>?v - ?a\<bar>"
      by (cases "n < 0") simp_all
    then have "\<bar>x - of_int n\<bar> = of_int \<bar>?v - ?a\<bar>"
      unfolding x by (metis of_int_abs of_int_diff)
    then have "\<bar>x - of_int n\<bar> * 2 ^ 53 = of_int (\<bar>?v - ?a\<bar> * 2 ^ 53)"
      by simp
    also have "\<dots> \<le> of_int ?a"
      using c by (simp only: of_int_le_iff)
    also have "\<dots> = \<bar>of_int n\<bar>"
      by simp
    finally show ?thesis .
  qed
  show "\<exists>m s. \<bar>x\<bar> = of_int m * 2 ^ s \<and> 0 \<le> m \<and> m \<le> 2 ^ 53"
  proof (cases "bitlen ?a \<le> 53")
    case True
    with assms have "x = of_int n" by (simp add: float_of_int_def Let_def)
    then have "\<bar>x\<bar> = of_int ?a * 2 ^ 0" by simp
    moreover from True have "?a \<le> 2 ^ 53" by (simp add: bitlen_le_iff)
    moreover have "0 \<le> ?a" by simp
    ultimately show ?thesis by blast
  next
    case False
    then have e: "53 < bitlen ?a" by simp
    have x: "x = of_int (if n < 0 then - ?v else ?v)"
      using False assms by (rule float_of_int_big)
    obtain m where m: "?v = m * 2 ^ (bitlen ?a - 53)" "0 \<le> m" "m \<le> 2 ^ 53"
      using round_53_close(2)[OF e] by blast
    have "0 \<le> ?v" unfolding m(1) using m(2) by simp
    then have "\<bar>x\<bar> = of_int ?v" unfolding x by (cases "n < 0") simp_all
    then have "\<bar>x\<bar> = of_int m * 2 ^ (bitlen ?a - 53)"
      unfolding m(1) by simp
    with m(2,3) show ?thesis by blast
  qed
qed

text \<open>Every integer below \<open>2^1023\<close> in magnitude has a float.\<close>

lemma float_of_int_in_range: "\<bar>n\<bar> < 2 ^ 1023 \<Longrightarrow> \<exists>x. float_of_int n = Inr x"
proof (cases "bitlen \<bar>n\<bar> \<le> 53")
  case True
  then show ?thesis by (simp add: float_of_int_def Let_def)
next
  case False
  assume "\<bar>n\<bar> < 2 ^ 1023"
  then have le: "bitlen \<bar>n\<bar> \<le> 1023" by (simp only: bitlen_le_iff)
  from False have e: "53 < bitlen \<bar>n\<bar>" by simp
  obtain m where m: "round_53 \<bar>n\<bar> = m * 2 ^ (bitlen \<bar>n\<bar> - 53)" "0 \<le> m" "m \<le> 2 ^ 53"
    using round_53_close(2)[OF e] by blast
  have "m * 2 ^ (bitlen \<bar>n\<bar> - 53) \<le> 2 ^ 53 * 2 ^ (bitlen \<bar>n\<bar> - 53)"
    using m(3) by (simp add: mult_right_mono)
  also have "\<dots> = 2 ^ (53 + (bitlen \<bar>n\<bar> - 53))"
    by (simp only: power_add)
  also have "\<dots> = 2 ^ bitlen \<bar>n\<bar>"
    using e by simp
  also have "\<dots> \<le> 2 ^ 1023"
    using le by (simp only: power_increasing_iff)
  also have "\<dots> < (2 :: int) ^ 1024"
    by simp
  finally have "\<not> 2 ^ 1024 \<le> round_53 \<bar>n\<bar>"
    unfolding m(1) by simp
  with False show ?thesis
    unfolding float_of_int_def Let_def by (simp only: if_False) blast
qed

text \<open>
  C7: \<^verbatim>\<open>sizeof_fmt\<close> gives \<^verbatim>\<open>0B\<close> for 0, \<^verbatim>\<open>1.0KiB\<close> for 1024 and \<^verbatim>\<open>1.5KiB\<close> for 1536.  In
  general, a magnitude below 1024 is rendered as the integer it is, with no prefix.
  Otherwise the number becomes a float \<open>x\<close>: the number itself below \<open>2^53\<close>, and always a
  significand of at most 53 bits times a power of two within one part in \<open>2^53\<close> of the
  number; every integer below \<open>2^1023\<close> has one.  The float is divided by 1024 through
  the prefixes Ki, Mi, Gi, Ti, Pi, Ei, Zi up to the first one where the magnitude is
  below 1024, and the unit is Yi when there is none; the text is a sign, a whole number,
  a point and exactly one decimal digit, the number so written being within half a tenth
  of the magnitude in that unit, then the prefix and the suffix.
\<close>

theorem sizeof_fmt_rule:
  "sizeof_fmt 0 ''B'' = Inr ''0B''
   \<and> sizeof_fmt 1024 ''B'' = Inr ''1.0KiB''
   \<and> sizeof_fmt 1536 ''B'' = Inr ''1.5KiB''
   \<and> (\<bar>num\<bar> < 2 ^ 53 \<longrightarrow> float_of_int num = Inr (of_int num))
   \<and> (\<bar>num\<bar> < 2 ^ 1023 \<longrightarrow> (\<exists>y. float_of_int num = Inr y))
   \<and> (float_of_int num = Inr x \<longrightarrow>
        \<bar>x - of_int num\<bar> * 2 ^ 53 \<le> \<bar>of_int num\<bar>
        \<and> (\<exists>m s. \<bar>x\<bar> = of_int m * 2 ^ s \<and> 0 \<le> m \<and> m \<le> 2 ^ 53))
   \<and> (\<bar>num\<bar> < 1024 \<longrightarrow> sizeof_fmt num suffix = Inr (str_int num @ suffix))
   \<and> (1024 \<le> \<bar>num\<bar> \<and> float_of_int num = Inr x \<longrightarrow>
        (\<exists>k t. sizeof_fmt num suffix
                 = Inr ((if x < 0 then ''-'' else '''') @ str_nat (t div 10) @ ''.''
                        @ [digit_char (t mod 10)]
                        @ [''Ki'', ''Mi'', ''Gi'', ''Ti'', ''Pi'', ''Ei'', ''Zi'', ''Yi''] ! k
                        @ suffix)
               \<and> k \<le> 7
               \<and> (0 < k \<longrightarrow> 1024 ^ (k + 1) \<le> \<bar>x\<bar>)
               \<and> (k < 7 \<longrightarrow> \<bar>x\<bar> < 1024 ^ (k + 2))
               \<and> \<bar>of_nat t - \<bar>x\<bar> / 1024 ^ (k + 1) * 10\<bar> \<le> 1 / 2))"
proof (intro conjI impI)
  show "sizeof_fmt 0 ''B'' = Inr ''0B''"
    by code_simp
  show "sizeof_fmt 1024 ''B'' = Inr ''1.0KiB''"
    by code_simp
  show "sizeof_fmt 1536 ''B'' = Inr ''1.5KiB''"
    by code_simp
next
  assume "\<bar>num\<bar> < 2 ^ 53"
  then show "float_of_int num = Inr (of_int num)"
    by (rule float_of_int_exact)
next
  assume "\<bar>num\<bar> < 2 ^ 1023"
  then show "\<exists>y. float_of_int num = Inr y"
    by (rule float_of_int_in_range)
next
  assume "float_of_int num = Inr x"
  then show "\<bar>x - of_int num\<bar> * 2 ^ 53 \<le> \<bar>of_int num\<bar>"
    by (rule float_of_int_nearest(1))
next
  assume "float_of_int num = Inr x"
  then show "\<exists>m s. \<bar>x\<bar> = of_int m * 2 ^ s \<and> 0 \<le> m \<and> m \<le> 2 ^ 53"
    by (rule float_of_int_nearest(2))
next
  assume "\<bar>num\<bar> < 1024"
  then show "sizeof_fmt num suffix = Inr (str_int num @ suffix)"
    by (simp add: sizeof_fmt_def value_of_def fmt_d_def abs_rat_lt_1024)
next
  assume h: "1024 \<le> \<bar>num\<bar> \<and> float_of_int num = Inr x"
  let ?us = "[''Ki'', ''Mi'', ''Gi'', ''Ti'', ''Pi'', ''Ei'', ''Zi'']"
  have s: "sizeof_fmt num suffix = sizeof_loop ?us (FloatNum (x / 1024)) suffix"
    using h by (simp add: sizeof_fmt_def value_of_def to_float_def abs_rat_lt_1024)
  have "'''' \<notin> set ?us" by simp
  from sizeof_loop_float[OF this, of "x / 1024" suffix] obtain j where j: "j \<le> length ?us"
      "sizeof_loop ?us (FloatNum (x / 1024)) suffix
         = Inr (fmt_1f (x / 1024 / 1024 ^ j) @ ((?us @ [''Yi'']) ! j) @ suffix)"
      "j < length ?us \<longrightarrow> \<bar>x / 1024\<bar> < 1024 ^ (j + 1)"
      "0 < j \<longrightarrow> 1024 ^ j \<le> \<bar>x / 1024\<bar>"
    by blast
  obtain t where t: "fmt_1f (x / 1024 ^ (j + 1))
        = (if x / 1024 ^ (j + 1) < 0 then ''-'' else '''') @ str_nat (t div 10) @ ''.''
            @ [digit_char (t mod 10)]"
      "\<bar>of_nat t - \<bar>x / 1024 ^ (j + 1)\<bar> * 10\<bar> \<le> 1 / 2"
    using fmt_1f_shape[of "x / 1024 ^ (j + 1)"] by blast
  have sg: "(x / 1024 ^ (j + 1) < 0) = (x < 0)"
    by (simp add: divide_less_0_iff)
  have ab: "\<bar>x / 1024 ^ (j + 1)\<bar> = \<bar>x\<bar> / 1024 ^ (j + 1)"
    by simp
  have e: "x / 1024 / 1024 ^ j = x / 1024 ^ (j + 1)"
    by simp
  have 1: "sizeof_fmt num suffix
             = Inr ((if x < 0 then ''-'' else '''') @ str_nat (t div 10) @ ''.''
                    @ [digit_char (t mod 10)]
                    @ [''Ki'', ''Mi'', ''Gi'', ''Ti'', ''Pi'', ''Ei'', ''Zi'', ''Yi''] ! j
                    @ suffix)"
    unfolding s j(2) e t(1) sg by simp
  have 2: "j \<le> 7" using j(1) by simp
  have 3: "0 < j \<longrightarrow> 1024 ^ (j + 1) \<le> \<bar>x\<bar>"
    using j(4) by (simp add: field_simps)
  have 4: "j < 7 \<longrightarrow> \<bar>x\<bar> < 1024 ^ (j + 2)"
    using j(3) by (simp add: field_simps)
  have 5: "\<bar>of_nat t - \<bar>x\<bar> / 1024 ^ (j + 1) * 10\<bar> \<le> 1 / 2"
    using t(2) unfolding ab .
  show "\<exists>k t. sizeof_fmt num suffix
                 = Inr ((if x < 0 then ''-'' else '''') @ str_nat (t div 10) @ ''.''
                        @ [digit_char (t mod 10)]
                        @ [''Ki'', ''Mi'', ''Gi'', ''Ti'', ''Pi'', ''Ei'', ''Zi'', ''Yi''] ! k
                        @ suffix)
               \<and> k \<le> 7
               \<and> (0 < k \<longrightarrow> 1024 ^ (k + 1) \<le> \<bar>x\<bar>)
               \<and> (k < 7 \<longrightarrow> \<bar>x\<bar> < 1024 ^ (k + 2))
               \<and> \<bar>of_nat t - \<bar>x\<bar> / 1024 ^ (k + 1) * 10\<bar> \<le> 1 / 2"
    apply (rule exI[of _ j])
    apply (rule exI[of _ t])
    apply (intro conjI)
        apply (rule 1)
       apply (rule 2)
      apply (rule 3)
     apply (rule 4)
    apply (rule 5)
    done
qed

theorem sizeof_fmt_rule_witness:
  "\<bar>1536 :: int\<bar> < 2 ^ 53
   \<and> \<bar>1536 :: int\<bar> < 2 ^ 1023
   \<and> float_of_int 1536 = Inr 1536
   \<and> \<bar>(1536 :: rat) - of_int 1536\<bar> * 2 ^ 53 \<le> \<bar>of_int 1536\<bar>
   \<and> (\<exists>m s. \<bar>1536 :: rat\<bar> = of_int m * 2 ^ s \<and> 0 \<le> m \<and> m \<le> 2 ^ 53)
   \<and> \<bar>5 :: int\<bar> < 1024
   \<and> sizeof_fmt 5 ''B'' = Inr ''5B''
   \<and> 1024 \<le> \<bar>1536 :: int\<bar>
   \<and> sizeof_fmt 1536 ''B'' = Inr ''1.5KiB''
   \<and> (\<exists>k t. sizeof_fmt 1536 ''B''
                 = Inr ((if (1536 :: rat) < 0 then ''-'' else []) @ str_nat (t div 10) @ ''.''
                        @ [digit_char (t mod 10)]
                        @ [''Ki'', ''Mi'', ''Gi'', ''Ti'', ''Pi'', ''Ei'', ''Zi'', ''Yi''] ! k
                        @ ''B'')
               \<and> k \<le> 7
               \<and> (0 < k \<longrightarrow> 1024 ^ (k + 1) \<le> \<bar>1536 :: rat\<bar>)
               \<and> (k < 7 \<longrightarrow> \<bar>1536 :: rat\<bar> < 1024 ^ (k + 2))
               \<and> \<bar>of_nat t - \<bar>1536 :: rat\<bar> / 1024 ^ (k + 1) * 10\<bar> \<le> 1 / 2)"
proof -
  note r = sizeof_fmt_rule[where num = 1536 and x = 1536 and suffix = "''B''"]
  note r5 = sizeof_fmt_rule[where num = 5 and x = 5 and suffix = "''B''"]
  have a: "\<bar>1536 :: int\<bar> < 2 ^ 53" by simp
  have a': "\<bar>1536 :: int\<bar> < 2 ^ 1023" by simp
  have b: "float_of_int 1536 = Inr 1536"
    using r a by simp
  note r6 = r[THEN conjunct2, THEN conjunct2, THEN conjunct2, THEN conjunct2, THEN conjunct2,
              THEN conjunct1]
  have n: "\<bar>(1536 :: rat) - of_int 1536\<bar> * 2 ^ 53 \<le> \<bar>of_int 1536\<bar>
             \<and> (\<exists>m s. \<bar>1536 :: rat\<bar> = of_int m * 2 ^ s \<and> 0 \<le> m \<and> m \<le> 2 ^ 53)"
    by (rule mp[OF r6]) (rule b)
  have c: "\<bar>5 :: int\<bar> < 1024" by simp
  have d: "sizeof_fmt 5 ''B'' = Inr ''5B''"
    using r5 c by (simp add: str_int_def str_nat.simps digit_char_def)
  have e: "1024 \<le> \<bar>1536 :: int\<bar>" by simp
  have g: "sizeof_fmt 1536 ''B'' = Inr ''1.5KiB''"
    by (rule r[THEN conjunct2, THEN conjunct2, THEN conjunct1])
  note r8 = r[THEN conjunct2, THEN conjunct2, THEN conjunct2, THEN conjunct2, THEN conjunct2,
              THEN conjunct2, THEN conjunct2]
  have f: "\<exists>k t. sizeof_fmt 1536 ''B''
                 = Inr ((if (1536 :: rat) < 0 then ''-'' else []) @ str_nat (t div 10) @ ''.''
                        @ [digit_char (t mod 10)]
                        @ [''Ki'', ''Mi'', ''Gi'', ''Ti'', ''Pi'', ''Ei'', ''Zi'', ''Yi''] ! k
                        @ ''B'')
               \<and> k \<le> 7
               \<and> (0 < k \<longrightarrow> 1024 ^ (k + 1) \<le> \<bar>1536 :: rat\<bar>)
               \<and> (k < 7 \<longrightarrow> \<bar>1536 :: rat\<bar> < 1024 ^ (k + 2))
               \<and> \<bar>of_nat t - \<bar>1536 :: rat\<bar> / 1024 ^ (k + 1) * 10\<bar> \<le> 1 / 2"
    by (rule mp[OF r8]) (simp only: e b simp_thms)
  show ?thesis
    apply (intro conjI)
             apply (rule a)
            apply (rule a')
           apply (rule b)
          apply (rule n[THEN conjunct1])
         apply (rule n[THEN conjunct2])
        apply (rule c)
       apply (rule d)
      apply (rule e)
     apply (rule g)
    apply (rule f)
    done
qed

subsection \<open>Values beyond \<open>2^53\<close>\<close>

text \<open>Two values above \<open>2^53\<close>, and the first integer that no float can hold.\<close>

lemma float_of_int_2_60_minus_1: "float_of_int (2 ^ 60 - 1) = Inr (2 ^ 60)"
proof -
  have b: "bitlen 1152921504606846975 = 60"
    using bitlen_eq[of 59 1152921504606846975] by simp
  show ?thesis
    by (simp add: float_of_int_def round_53_def Let_def b)
qed

lemma sizeof_fmt_2_60_minus_1: "sizeof_fmt (2 ^ 60 - 1) ''B'' = Inr ''1.0EiB''"
proof -
  have f: "float_of_int 1152921504606846975 = Inr 1152921504606846976"
    using float_of_int_2_60_minus_1 by simp
  have r: "round_half_even 10 = 10"
    by (simp add: round_half_even_def)
  have t: "fmt_1f 1 = ''1.0''"
    by (simp add: fmt_1f_def r str_nat.simps digit_char_def)
  show ?thesis
    by (simp add: sizeof_fmt_def value_of_def to_float_def f t)
qed

lemma float_of_int_2_1024: "float_of_int (2 ^ 1024) = Inl OverflowError"
proof -
  have b: "bitlen (2 ^ 1024) = 1025"
    using bitlen_eq[of 1024 "2 ^ 1024"] by simp
  have n: "\<bar>2 ^ 1024 :: int\<bar> = 2 ^ 1024"
    by simp
  have s: "(1025 :: nat) - 53 = 972"
    by simp
  have p: "(2 :: int) ^ 1024 = 2 ^ 52 * 2 ^ 972"
    by (simp add: power_add[symmetric])
  have d: "(2 :: int) ^ 1024 div 2 ^ 972 = 2 ^ 52"
    unfolding p by simp
  have m: "(2 :: int) ^ 1024 mod 2 ^ 972 = 0"
    unfolding p by simp
  have r: "round_53 (2 ^ 1024) = 2 ^ 1024"
    unfolding round_53_def Let_def b s d m by (simp add: p)
  show ?thesis
    unfolding float_of_int_def Let_def n b r by simp
qed

lemma sizeof_fmt_2_1024: "sizeof_fmt (2 ^ 1024) ''B'' = Inl OverflowError"
  using float_of_int_2_1024 by (intro sizeof_fmt_overflow) simp_all

lemma float_of_int_tie_to_even: "float_of_int 9063494250083123 = Inr 9063494250083124"
proof -
  have b: "bitlen 9063494250083123 = 54"
    using bitlen_eq[of 53 9063494250083123] by simp
  show ?thesis
    by (simp add: float_of_int_def round_53_def Let_def b)
qed

lemma sizeof_fmt_above_2_53: "sizeof_fmt 9063494250083123 ''B'' = Inr ''8.1PiB''"
proof -
  have fl: "\<lfloor>11329367812603905 / 140737488355328 :: rat\<rfloor> = 80"
    by (simp add: floor_eq_iff)
  have r: "round_half_even (11329367812603905 / 140737488355328) = 81"
    unfolding round_half_even_def Let_def fl by simp
  have t: "fmt_1f (2265873562520781 / 281474976710656) = ''8.1''"
    by (simp add: fmt_1f_def r str_nat.simps digit_char_def)
  show ?thesis
    by (simp add: sizeof_fmt_def value_of_def to_float_def float_of_int_tie_to_even t)
qed

lemma float_of_int_2_80_minus_1: "float_of_int (2 ^ 80 - 1) = Inr (2 ^ 80)"
proof -
  have b: "bitlen 1208925819614629174706175 = 80"
    using bitlen_eq[of 79 1208925819614629174706175] by simp
  show ?thesis
    by (simp add: float_of_int_def round_53_def Let_def b)
qed

lemma sizeof_fmt_2_80_minus_1: "sizeof_fmt (2 ^ 80 - 1) ''B'' = Inr ''1.0YiB''"
proof -
  have f: "float_of_int 1208925819614629174706175 = Inr 1208925819614629174706176"
    using float_of_int_2_80_minus_1 by simp
  have r: "round_half_even 10 = 10"
    by (simp add: round_half_even_def)
  have t: "fmt_1f 1 = ''1.0''"
    by (simp add: fmt_1f_def r str_nat.simps digit_char_def)
  show ?thesis
    by (simp add: sizeof_fmt_def value_of_def to_float_def f t)
qed

section \<open>Properties of the subject lines\<close>

lemma upt_0_Suc: "[0..<Suc n] = 0 # map Suc [0..<n]"
  by (simp add: upt_conv_Cons map_Suc_upt del: upt_Suc)

text \<open>
  The loop in closed form, for every template: subject \<open>k\<close> is formatted from the
  number \<open>k + 1\<close>, the range that starts after the records of the groups before and
  ends with the records of group \<open>k\<close>, the total that was passed in and the text of the
  group's size; the first exception, of \<^verbatim>\<open>sizeof_fmt\<close> or of \<^verbatim>\<open>format\<close>, ends the loop.
\<close>

lemma subjects_loop_eq:
  "subjects_loop title fmt tc i (p0, p1) groups subjects =
     (case collect (map (\<lambda>k. case sizeof_fmt (group_size (groups ! k)) ''B'' of
                              Inl e \<Rightarrow> Inl e
                            | Inr size_text \<Rightarrow>
                                format fmt (subject_kwargs title (i + int k + 1) tc size_text
                                  (p1 + members_before groups k + 1,
                                   p1 + members_before groups (Suc k))))
                     [0..<length groups]) of
        Inl e \<Rightarrow> Inl e
      | Inr ss \<Rightarrow> Inr (subjects @ ss))"
proof (induction groups arbitrary: i p0 p1 subjects)
  case Nil
  then show ?case by simp
next
  case (Cons g gs)
  have shift: "map (\<lambda>k. case sizeof_fmt (group_size ((g # gs) ! k)) ''B'' of
                              Inl e \<Rightarrow> Inl e
                            | Inr size_text \<Rightarrow>
                                format fmt (subject_kwargs title (i + int k + 1) tc size_text
                                  (p1 + members_before (g # gs) k + 1,
                                   p1 + members_before (g # gs) (Suc k))))
                 (map Suc [0..<length gs])
        = map (\<lambda>k. case sizeof_fmt (group_size (gs ! k)) ''B'' of
                              Inl e \<Rightarrow> Inl e
                            | Inr size_text \<Rightarrow>
                                format fmt (subject_kwargs title ((i + 1) + int k + 1) tc size_text
                                  ((p1 + int (length g)) + members_before gs k + 1,
                                   (p1 + int (length g)) + members_before gs (Suc k))))
                 [0..<length gs]"
    by (simp add: members_before_def add.assoc cong: sum.case_cong)
  show ?case
    unfolding length_Cons upt_0_Suc list.map shift
    by (simp add: Cons.IH[of "i + 1" "p1 + 1" "p1 + int (length g)"] members_before_def Let_def
          split: sum.splits)
qed

lemma case_sum_id: "(case c of Inl e \<Rightarrow> Inl e | Inr x \<Rightarrow> Inr x) = c"
  by (cases c) simp_all

lemma groups2subjects_any_template:
  "groups2subjects groups title fmt =
     collect (map (\<lambda>k. case sizeof_fmt (group_size (groups ! k)) ''B'' of
                          Inl e \<Rightarrow> Inl e
                        | Inr size_text \<Rightarrow>
                            format fmt (subject_kwargs title (int k + 1)
                              (members_before groups (length groups)) size_text
                              (members_before groups k + 1, members_before groups (Suc k))))
                [0..<length groups])"
proof -
  have total: "sum_list (map (\<lambda>x. int (length x)) groups) = members_before groups (length groups)"
    by (simp add: members_before_def)
  show ?thesis
    unfolding groups2subjects_def Let_def total subjects_loop_eq
    by (simp add: case_sum_id cong: sum.case_cong)
qed

lemma format_default:
  "format subject_fmt_default (subject_kwargs title n tc sz (a, b))
     = Inr (title @ '' #'' @ str_int n @ '' ('' @ str_int a @ ''-'' @ str_int b @ ''/''
             @ str_int tc @ '') '' @ sz)"
  by (simp add: subject_fmt_default_def subject_kwargs_def positional_error_def is_digit_def)

text \<open>
  Collecting results that are computed from other results: the first error is the
  same, and otherwise each result is computed from the value at its place.
\<close>

lemma collect_length: "collect rs = Inr xs \<Longrightarrow> length xs = length rs"
  by (induction rs arbitrary: xs) (auto split: sum.splits)

lemma collect_map_case:
  "collect (map (\<lambda>k. case S k of Inl e \<Rightarrow> Inl e | Inr z \<Rightarrow> Inr (F k z)) ks) =
     (case collect (map S ks) of
        Inl e \<Rightarrow> Inl e
      | Inr zs \<Rightarrow> Inr (map (\<lambda>j. F (ks ! j) (zs ! j)) [0..<length ks]))"
proof (induction ks)
  case Nil
  then show ?case by simp
next
  case (Cons k ks)
  show ?case
  proof (cases "S k")
    case (Inl e)
    then show ?thesis by simp
  next
    case (Inr z)
    show ?thesis
    proof (cases "collect (map S ks)")
      case (Inl e)
      with Inr Cons.IH show ?thesis by simp
    next
      case zs: (Inr zs)
      have "map (\<lambda>j. F ((k # ks) ! j) ((z # zs) ! j)) [0..<length (k # ks)]
              = F k z # map (\<lambda>j. F (ks ! j) (zs ! j)) [0..<length ks]"
        unfolding length_Cons upt_0_Suc by simp
      with Inr zs Cons.IH show ?thesis by simp
    qed
  qed
qed

text \<open>
  C6: for groups with member counts \<open>a, b, c, ...\<close> there is one subject per group, in
  order; subject \<open>i\<close> (counted from 0) carries the number \<open>i + 1\<close>, the range from one
  more than the number of records in the groups before it to the number of records up
  to and including its own group, that is \<open>1-a\<close>, \<open>(a+1)-(a+b)\<close>, \<open>(a+b+1)-(a+b+c)\<close>, ...,
  and the total \<open>a + b + c + ...\<close>; the ranges never start again.  Stated for the default
  template and any title, where the fields can be read off the subject.  The last field
  is the text that \<^verbatim>\<open>sizeof_fmt\<close> returns for the group's size; the only way to get no
  subjects is that \<^verbatim>\<open>sizeof_fmt\<close> raises (a group of \<open>2^1024\<close> bytes or so), and then
  \<^verbatim>\<open>groups2subjects\<close> raises the same.
\<close>

theorem groups2subjects_progress:
  "groups2subjects groups title subject_fmt_default =
     (case collect (map (\<lambda>i. sizeof_fmt (group_size (groups ! i)) ''B'') [0..<length groups]) of
        Inl e \<Rightarrow> Inl e
      | Inr sizes \<Rightarrow>
          Inr (map (\<lambda>i. title @ '' #'' @ str_int (int i + 1) @ '' (''
                      @ str_int (members_before groups i + 1) @ ''-''
                      @ str_int (members_before groups (Suc i)) @ ''/''
                      @ str_int (members_before groups (length groups)) @ '') ''
                      @ sizes ! i)
                 [0..<length groups]))"
  unfolding groups2subjects_any_template format_default collect_map_case
  by (simp split: sum.splits)

text \<open>The example of three files of 4, 3 and 5 MiB in two groups.\<close>

lemma groups2subjects_example:
  "groups2subjects
     [[\<lparr>file_name = ''a'', file_path = ''a'', file_size = 4194304\<rparr>,
       \<lparr>file_name = ''b'', file_path = ''b'', file_size = 3145728\<rparr>],
      [\<lparr>file_name = ''c'', file_path = ''c'', file_size = 5242880\<rparr>]] ''T'' subject_fmt_default
   = Inr [''T #1 (1-2/3) 7.0MiB'', ''T #2 (3-3/3) 5.0MiB'']"
  by code_simp

text \<open>
  C10: the empty input is partitioned into the single empty group, and for it, with the
  default template and title, there is exactly one subject,
  \<^verbatim>\<open>batch mailer #1 (1-0/0) 0B\<close>: its range 1-0 starts after its end, and the total is 0.
\<close>

theorem groups2subjects_single_empty_group:
  "meta_data2groups [] max_size = Inr [[]]
   \<and> groups2subjects [[]] title_default subject_fmt_default
       = Inr [''batch mailer #1 (1-0/0) 0B'']
   \<and> sizeof_fmt (group_size []) ''B'' = Inr ''0B''
   \<and> map_of (subject_kwargs title_default 1 0 ''0B'' (0 + 1, 0 + int (length ([] :: meta list))))
        ''progress'' = Some ''1-0''"
proof (intro conjI)
  show "meta_data2groups [] max_size = Inr [[]]"
    by (simp add: meta_data2groups_def)
  show "groups2subjects [[]] title_default subject_fmt_default
       = Inr [''batch mailer #1 (1-0/0) 0B'']"
    by code_simp
  show "sizeof_fmt (group_size []) ''B'' = Inr ''0B''"
    by code_simp
  show "map_of (subject_kwargs title_default 1 0 ''0B'' (0 + 1, 0 + int (length ([] :: meta list))))
        ''progress'' = Some ''1-0''"
    by code_simp
qed

section \<open>Properties of the sorting\<close>

lemma lacking_first_split:
  "lacking_first has ys \<Longrightarrow>
     \<exists>ls hs. ys = ls @ hs \<and> list_all (\<lambda>a. \<not> has a) ls \<and> list_all has hs"
proof (induction ys)
  case Nil
  then show ?case by simp
next
  case (Cons y ys)
  show ?case
  proof (cases "has y")
    case True
    with Cons.prems have "list_all has (y # ys)" by simp
    then have "y # ys = [] @ (y # ys) \<and> list_all (\<lambda>a. \<not> has a) [] \<and> list_all has (y # ys)"
      by simp
    then show ?thesis by blast
  next
    case False
    with Cons obtain ls hs where "ys = ls @ hs" "list_all (\<lambda>a. \<not> has a) ls" "list_all has hs"
      by auto
    with False have "y # ys = (y # ls) @ hs \<and> list_all (\<lambda>a. \<not> has a) (y # ls) \<and> list_all has hs"
      by simp
    then show ?thesis by blast
  qed
qed

subsection \<open>The comparison\<close>

lemma key_cmp_loop_lacks_left:
  "get_path p a = None \<Longrightarrow> get_path p b \<noteq> None \<Longrightarrow> key_cmp_loop p a b = Inr (- 1)"
  by (induction p arbitrary: a b) (auto split: option.splits)

lemma key_cmp_loop_lacks_right:
  "get_path p a \<noteq> None \<Longrightarrow> get_path p b = None \<Longrightarrow> key_cmp_loop p a b = Inr 1"
  by (induction p arbitrary: a b) (auto split: option.splits)

lemma key_cmp_loop_lacks_any:
  "get_path p a = None \<or> get_path p b = None \<Longrightarrow>
     key_cmp_loop p a b = Inr (- 1) \<or> key_cmp_loop p a b = Inr 1"
  by (induction p arbitrary: a b) (auto split: option.splits)

text \<open>When both records have the path, the values at its end are compared.\<close>

lemma key_cmp_loop_has:
  "get_path p a = Some v \<Longrightarrow> get_path p b = Some w \<Longrightarrow> key_cmp_loop p a b = cmp v w"
  by (induction p arbitrary: a b) (auto split: option.splits)

lemma key_lt_lacks_left:
  "\<not> has_path ob a \<Longrightarrow> has_path ob b \<Longrightarrow> key_lt ob a b = Inr True"
  using key_cmp_loop_lacks_left[of "split CHR ''.'' ob" a b]
  by (simp add: key_lt_def key_cmp_def has_path_def)

lemma key_lt_lacks_right:
  "has_path ob a \<Longrightarrow> \<not> has_path ob b \<Longrightarrow> key_lt ob a b = Inr False"
  using key_cmp_loop_lacks_right[of "split CHR ''.'' ob" a b]
  by (simp add: key_lt_def key_cmp_def has_path_def)

lemma key_cmp_missing:
  "\<not> has_path ob a \<or> \<not> has_path ob b \<Longrightarrow> key_cmp ob a b = Inr (- 1) \<or> key_cmp ob a b = Inr 1"
  using key_cmp_loop_lacks_any[of "split CHR ''.'' ob" a b]
  by (simp add: key_cmp_def has_path_def)

subsection \<open>The insertion\<close>

lemma insort_by_mset:
  "insort_by lt x ys = Inr r \<Longrightarrow> mset r = add_mset x (mset ys)"
  by (induction ys arbitrary: r) (auto split: sum.splits bool.splits)

lemma sort_loop_mset:
  "sort_loop lt xs acc = Inr r \<Longrightarrow> mset r = mset xs + mset acc"
  by (induction xs arbitrary: acc) (auto split: sum.splits dest: insort_by_mset)

lemma insort_by_lacking_first:
  "insort_by (key_lt ob) x ys = Inr r \<Longrightarrow> lacking_first (has_path ob) ys \<Longrightarrow>
     lacking_first (has_path ob) r"
proof (induction ys arbitrary: r)
  case Nil
  then show ?case by auto
next
  case (Cons y ys)
  show ?case
  proof (cases "has_path ob y")
    case True
    note hy = this
    with Cons.prems(2) have all: "list_all (has_path ob) (y # ys)" by simp
    show ?thesis
    proof (cases "has_path ob x")
      case True
      have "set r = insert x (set (y # ys))"
        using insort_by_mset[OF Cons.prems(1)] by (metis set_mset_add_mset_insert set_mset_mset)
      with all True have "list_all (has_path ob) r"
        by (auto simp: list_all_iff)
      then show ?thesis by (cases r) auto
    next
      case False
      then have "key_lt ob x y = Inr True" using hy by (rule key_lt_lacks_left)
      with Cons.prems(1) have "r = x # y # ys" by simp
      with False Cons.prems(2) show ?thesis by simp
    qed
  next
    case False
    note ny = this
    with Cons.prems(2) have lf: "lacking_first (has_path ob) ys" by simp
    show ?thesis
    proof (cases "key_lt ob x y")
      case (Inl e)
      with Cons.prems(1) show ?thesis by simp
    next
      case (Inr c)
      show ?thesis
      proof (cases c)
        case True
        with Inr Cons.prems(1) have r: "r = x # y # ys" by simp
        have "\<not> has_path ob x"
          using key_lt_lacks_right[of ob x y] ny Inr True by auto
        with r Cons.prems(2) show ?thesis by simp
      next
        case False
        with Inr Cons.prems(1) obtain r' where
          r': "insort_by (key_lt ob) x ys = Inr r'" "r = y # r'"
          by (auto split: sum.splits)
        from Cons.IH[OF r'(1) lf] r'(2) ny show ?thesis by simp
      qed
    qed
  qed
qed

lemma sort_loop_lacking_first:
  "sort_loop (key_lt ob) xs acc = Inr r \<Longrightarrow> lacking_first (has_path ob) acc \<Longrightarrow>
     lacking_first (has_path ob) r"
  by (induction xs arbitrary: acc) (auto split: sum.splits dest: insort_by_lacking_first)

lemma insort_by_ok:
  "\<forall>y\<in>set ys. \<exists>c. lt x y = Inr c \<Longrightarrow> \<exists>r. insort_by lt x ys = Inr r"
  by (induction ys) (auto split: sum.splits bool.splits)

lemma sort_loop_ok:
  "\<forall>a\<in>set xs \<union> set acc. \<forall>b\<in>set xs \<union> set acc. \<exists>c. lt a b = Inr c \<Longrightarrow>
     \<exists>r. sort_loop lt xs acc = Inr r"
proof (induction xs arbitrary: acc)
  case Nil
  then show ?case by simp
next
  case (Cons x xs)
  from Cons.prems obtain acc' where acc': "insort_by lt x acc = Inr acc'"
    using insort_by_ok[of acc lt x] by auto
  then have "set acc' = insert x (set acc)"
    using insort_by_mset[OF acc'] by (metis set_mset_add_mset_insert set_mset_mset)
  with Cons.prems have "\<forall>a\<in>set xs \<union> set acc'. \<forall>b\<in>set xs \<union> set acc'. \<exists>c. lt a b = Inr c"
    by auto
  from Cons.IH[OF this] acc' show ?case by simp
qed

subsection \<open>The claim about missing keys\<close>

text \<open>
  C5: a record that lacks a segment of the dotted path compares below a record that has
  the whole path (\<^verbatim>\<open>key_cmp\<close> gives -1 one way round and 1 the other), a comparison with
  a record that lacks the path never raises, and the ascending sort puts every record
  that lacks the path before every record that has it, keeping all the records.  The
  sort raises nothing as soon as the records that have the path can be compared with
  each other.
\<close>

theorem sort_meta_data_list_missing_first:
  "(\<not> has_path ordered_by a \<and> has_path ordered_by b \<longrightarrow>
      key_cmp ordered_by a b = Inr (- 1) \<and> key_cmp ordered_by b a = Inr 1)
   \<and> (\<not> has_path ordered_by a \<or> \<not> has_path ordered_by b \<longrightarrow>
      key_cmp ordered_by a b = Inr (- 1) \<or> key_cmp ordered_by a b = Inr 1)
   \<and> (sort_meta_data_list metas ordered_by False = Inr ys \<longrightarrow>
        mset ys = mset metas
        \<and> (\<exists>ls hs. ys = ls @ hs \<and> list_all (\<lambda>a. \<not> has_path ordered_by a) ls
              \<and> list_all (has_path ordered_by) hs))
   \<and> ((\<forall>a \<in> set metas. \<forall>b \<in> set metas. has_path ordered_by a \<and> has_path ordered_by b \<longrightarrow>
          (\<exists>c. key_cmp ordered_by a b = Inr c)) \<longrightarrow>
        (\<exists>ys. sort_meta_data_list metas ordered_by False = Inr ys))"
proof (intro conjI impI)
  assume h: "\<not> has_path ordered_by a \<and> has_path ordered_by b"
  show "key_cmp ordered_by a b = Inr (- 1)"
    using h key_cmp_loop_lacks_left[of "split CHR ''.'' ordered_by" a b]
    by (simp add: key_cmp_def has_path_def)
  show "key_cmp ordered_by b a = Inr 1"
    using h key_cmp_loop_lacks_right[of "split CHR ''.'' ordered_by" b a]
    by (simp add: key_cmp_def has_path_def)
next
  assume "\<not> has_path ordered_by a \<or> \<not> has_path ordered_by b"
  then show "key_cmp ordered_by a b = Inr (- 1) \<or> key_cmp ordered_by a b = Inr 1"
    by (rule key_cmp_missing)
next
  assume s: "sort_meta_data_list metas ordered_by False = Inr ys"
  then have l: "sort_loop (key_lt ordered_by) metas [] = Inr ys"
    by (simp add: sort_meta_data_list_def list_sort_def)
  show "mset ys = mset metas"
    using sort_loop_mset[OF l] by simp
  have "lacking_first (has_path ordered_by) ys"
    using sort_loop_lacking_first[OF l] by simp
  then show "\<exists>ls hs. ys = ls @ hs \<and> list_all (\<lambda>a. \<not> has_path ordered_by a) ls
              \<and> list_all (has_path ordered_by) hs"
    by (rule lacking_first_split)
next
  assume c: "\<forall>a \<in> set metas. \<forall>b \<in> set metas. has_path ordered_by a \<and> has_path ordered_by b \<longrightarrow>
          (\<exists>c. key_cmp ordered_by a b = Inr c)"
  have "\<forall>a\<in>set metas \<union> set []. \<forall>b\<in>set metas \<union> set []. \<exists>c. key_lt ordered_by a b = Inr c"
  proof (intro ballI)
    fix a b assume "a \<in> set metas \<union> set []" "b \<in> set metas \<union> set []"
    then have ab: "a \<in> set metas" "b \<in> set metas" by auto
    have "\<exists>c. key_cmp ordered_by a b = Inr c"
    proof (cases "has_path ordered_by a \<and> has_path ordered_by b")
      case True
      with c ab show ?thesis by blast
    next
      case False
      then show ?thesis using key_cmp_missing[of ordered_by a b] by auto
    qed
    then show "\<exists>c. key_lt ordered_by a b = Inr c"
      by (auto simp: key_lt_def)
  qed
  from sort_loop_ok[OF this]
  show "\<exists>ys. sort_meta_data_list metas ordered_by False = Inr ys"
    by (simp add: sort_meta_data_list_def list_sort_def)
qed

theorem sort_meta_data_list_missing_first_witness:
  "\<not> has_path ''image.date'' (PDict [(''file'', PDict [(''size'', PInt 3)])])
   \<and> has_path ''image.date'' (PDict [(''image'', PDict [(''date'', PStr ''2019'')])])
   \<and> key_cmp ''image.date'' (PDict [(''file'', PDict [(''size'', PInt 3)])])
         (PDict [(''image'', PDict [(''date'', PStr ''2019'')])]) = Inr (- 1)
   \<and> key_cmp ''image.date'' (PDict [(''image'', PDict [(''date'', PStr ''2019'')])])
         (PDict [(''file'', PDict [(''size'', PInt 3)])]) = Inr 1
   \<and> key_cmp ''image.date'' (PDict [(''image'', PDict [(''date'', PStr ''2019'')])])
         (PDict [(''image'', PDict [(''date'', PStr ''2019'')])]) = Inr 0
   \<and> sort_meta_data_list [PDict [(''image'', PDict [(''date'', PStr ''2019'')])],
                            PDict [(''file'', PDict [(''size'', PInt 3)])]] ''image.date'' False
       = Inr [PDict [(''file'', PDict [(''size'', PInt 3)])],
              PDict [(''image'', PDict [(''date'', PStr ''2019'')])]]
   \<and> (\<exists>ls hs. [PDict [(''file'', PDict [(''size'', PInt 3)])],
                 PDict [(''image'', PDict [(''date'', PStr ''2019'')])]] = ls @ hs
          \<and> list_all (\<lambda>a. \<not> has_path ''image.date'' a) ls
          \<and> list_all (has_path ''image.date'') hs)
   \<and> (\<exists>ys. sort_meta_data_list [PDict [(''image'', PDict [(''date'', PStr ''2019'')])],
                            PDict [(''file'', PDict [(''size'', PInt 3)])]] ''image.date'' False
          = Inr ys)"
proof -
  let ?A = "PDict [(''file'', PDict [(''size'', PInt 3)])]"
  let ?B = "PDict [(''image'', PDict [(''date'', PStr ''2019'')])]"
  have sp: "split CHR ''.'' ''image.date'' = [''image'', ''date'']"
    by simp
  have a: "\<not> has_path ''image.date'' ?A"
    by (simp add: has_path_def sp dict_get_def)
  have b: "has_path ''image.date'' ?B"
    by (simp add: has_path_def sp dict_get_def)
  have c: "key_cmp ''image.date'' ?B ?B = Inr 0"
    by (simp add: key_cmp_def sp dict_get_def cmp_def)
  have s: "sort_meta_data_list [?B, ?A] ''image.date'' False = Inr [?A, ?B]"
    by (simp add: sort_meta_data_list_def list_sort_def key_lt_def key_cmp_def sp dict_get_def)
  have h4: "\<forall>x \<in> set [?B, ?A]. \<forall>y \<in> set [?B, ?A].
              has_path ''image.date'' x \<and> has_path ''image.date'' y \<longrightarrow>
              (\<exists>c. key_cmp ''image.date'' x y = Inr c)"
    using a c by auto
  note t = sort_meta_data_list_missing_first[of "''image.date''" ?A ?B "[?B, ?A]" "[?A, ?B]"]
  from t a b c s h4 show ?thesis by blast
qed

section \<open>Properties of the text part\<close>

lemma iterencode_total:
  "\<exists>s. iterencode JSONEncoder floatstr level v = Inr s"
  "\<exists>items. iterencode_dict JSONEncoder floatstr level kvs = Inr items"
proof (induction JSONEncoder floatstr level v and JSONEncoder floatstr level kvs
       rule: iterencode_iterencode_dict.induct)
qed (auto simp: default_hook_def split: pyval.splits option.splits)

lemma iterencode_list_total:
  "\<exists>items. iterencode_list JSONEncoder floatstr level vs = Inr items"
proof (induction vs)
  case Nil
  then show ?case by simp
next
  case (Cons v vs)
  then show ?case using iterencode_total(1)[of floatstr level v] by auto
qed

text \<open>
  What the encoder of batchmail.py writes for a value is what the standard encoder
  writes for the value with the markers put in.
\<close>

lemma iterencode_null_marked:
  "iterencode JSONEncoder floatstr level v
     = iterencode StdEncoder floatstr level (null_marked v)"
  "iterencode_dict JSONEncoder floatstr level kvs
     = iterencode_dict StdEncoder floatstr level (map (\<lambda>kv. (fst kv, null_marked (snd kv))) kvs)"
proof (induction JSONEncoder floatstr level v and JSONEncoder floatstr level kvs
       rule: iterencode_iterencode_dict.induct)
qed (auto simp: default_hook_def split: sum.splits option.splits)

lemma iterencode_list_null_marked:
  "iterencode_list JSONEncoder floatstr level vs
     = iterencode_list StdEncoder floatstr level (map null_marked vs)"
  by (induction vs) (auto simp: iterencode_null_marked(1) split: sum.splits)

text \<open>
  C8: \<^verbatim>\<open>group2text\<close> returns a text for every group and never raises.  The text is
  the standard JSON text of the group in which every value that cannot be serialised
  and has no \<^verbatim>\<open>__json__\<close> method, such as the bytes of a thumbnail, is replaced by
  \<^verbatim>\<open>None\<close>, and \<^verbatim>\<open>None\<close> is written \<^verbatim>\<open>null\<close>; so a record with a thumbnail has
  \<^verbatim>\<open>"thumbnail": null\<close> in the text, where the standard encoder raises TypeError.
\<close>

theorem group2text_never_raises:
  "(\<exists>text. group2text floatstr grp = Inr text)
   \<and> group2text floatstr grp = dumps StdEncoder floatstr (map null_marked grp)
   \<and> null_marked (PBytes b) = PNone
   \<and> null_marked (PObj None) = PNone
   \<and> iterencode StdEncoder floatstr level PNone = Inr ''null''
   \<and> group2text floatstr [PDict [(''image'', PDict [(''thumbnail'', PBytes b)])]]
       = Inr (''['' @ [CHR 0x0A] @ ''    {'' @ [CHR 0x0A]
          @ ''        '' @ [CHR 0x22] @ ''image'' @ [CHR 0x22] @ '': {'' @ [CHR 0x0A]
          @ ''            '' @ [CHR 0x22] @ ''thumbnail'' @ [CHR 0x22] @ '': null'' @ [CHR 0x0A]
          @ ''        }'' @ [CHR 0x0A] @ ''    }'' @ [CHR 0x0A] @ '']'')
   \<and> dumps StdEncoder floatstr [PDict [(''image'', PDict [(''thumbnail'', PBytes b)])]]
       = Inl TypeError"
proof (intro conjI)
  show "\<exists>text. group2text floatstr grp = Inr text"
    using iterencode_list_total[of floatstr 1 grp]
    by (auto simp: group2text_def json_encode_def dumps_def)
  show "group2text floatstr grp = dumps StdEncoder floatstr (map null_marked grp)"
    by (simp add: group2text_def json_encode_def dumps_def iterencode_list_null_marked)
  show "null_marked (PBytes b) = PNone"
    by simp
  show "null_marked (PObj None) = PNone"
    by simp
  show "iterencode StdEncoder floatstr level PNone = Inr ''null''"
    by simp
  show "group2text floatstr [PDict [(''image'', PDict [(''thumbnail'', PBytes b)])]]
       = Inr (''['' @ [CHR 0x0A] @ ''    {'' @ [CHR 0x0A]
          @ ''        '' @ [CHR 0x22] @ ''image'' @ [CHR 0x22] @ '': {'' @ [CHR 0x0A]
          @ ''            '' @ [CHR 0x22] @ ''thumbnail'' @ [CHR 0x22] @ '': null'' @ [CHR 0x0A]
          @ ''        }'' @ [CHR 0x0A] @ ''    }'' @ [CHR 0x0A] @ '']'')"
    by (simp add: group2text_def json_encode_def dumps_def default_hook_def layout_def
          newline_indent_def encode_basestring_def escape_char_def numeral_eq_Suc)
  show "dumps StdEncoder floatstr [PDict [(''image'', PDict [(''thumbnail'', PBytes b)])]]
       = Inl TypeError"
    by (simp add: dumps_def default_hook_def)
qed

end
